theory Spec2Isabelle
  imports Complex_Main
begin

section \<open>Data model\<close>

text \<open>
  A processed relation is the dictionary built by \<open>get_relations_from\<close> and
  \<open>get_relations_to\<close>: it always carries the four keys \<open>source\<close>, \<open>target\<close>,
  \<open>type\<close> and \<open>weight\<close>, so the \<open>.get(key, default)\<close> reads of \<open>find_triangles\<close>
  never fall back to their default. A raw relation is an entry of the \<open>relations\<close> array of
  a server payload, with the keys \<open>node1\<close>, \<open>node2\<close>, \<open>type\<close> and \<open>w\<close> of the
  server's schema. Weights are only carried along, never compared or added on the paths
  modelled here, and are taken as reals.
\<close>

record relation =
  source :: string
  target :: string
  rtype :: int
  weight :: real

record raw_relation =
  node1 :: int
  node2 :: int
  raw_type :: int
  raw_w :: real

text \<open>
  A node object is a non-empty JSON dictionary; the keys \<open>id\<close> and \<open>name\<close> may be
  absent, and reading an absent key with \<open>node['id']\<close> or \<open>node['name']\<close> raises
  \<open>KeyError\<close>.
\<close>

record node =
  nid :: "int option"
  nname :: "string option"

datatype json_node = NotDict | NodeDict node

record triangle =
  A_node :: string
  B_node :: string
  C_node :: string
  A_to_B :: int
  C_to_B :: int
  A_to_C :: int
  A_to_B_weight :: real
  C_to_B_weight :: real
  A_to_C_weight :: real

datatype error = KeyError | AttributeError | StopIteration | OperationalError

section \<open>The outside world\<close>

text \<open>
  The remote server, the SQLite file and the iteration order of Python sets are not
  determined by the program. They are parameters: the server's answer to a request may
  depend on how many requests the session has issued before (its clock), a database call
  may raise depending on how many calls preceded it, and a set built from a list of
  elements is iterated in some order \<open>set_iter\<close> of these elements.
\<close>

datatype request =
  Node_by_id int | Node_by_name string | Relations_from string | Relations_to string

datatype 'a response = RequestException | Json 'a

datatype payload = Malformed | Payload "raw_relation list" "node list"

record world =
  http_relations_from :: "nat \<Rightarrow> string \<Rightarrow> payload response"
  http_relations_to :: "nat \<Rightarrow> string \<Rightarrow> payload response"
  http_node_by_id :: "nat \<Rightarrow> int \<Rightarrow> node response"
  http_node_by_name :: "nat \<Rightarrow> string \<Rightarrow> json_node response"
  db_raises :: "nat \<Rightarrow> bool"
  set_iter :: "string list \<Rightarrow> string list"

definition set_iter_ok :: "world \<Rightarrow> bool" where
  "set_iter_ok w = (\<forall>xs. distinct (set_iter w xs) \<and> set (set_iter w xs) = set xs)"

section \<open>api_client.py: JDMAPIClient\<close>

definition EXCLUDED_RELATION_TYPES :: "int set" where
  "EXCLUDED_RELATION_TYPES = {0, 666, 777, 4, 1, 2, 200, 1000, 1001, 1002, 2001}"

text \<open>The field \<open>requests\<close> is a ghost log of the GET requests sent through the session.\<close>

record client =
  node_cache :: "int \<rightharpoonup> node"
  relations_cache :: "string \<rightharpoonup> relation list"
  reverse_relations_cache :: "string \<rightharpoonup> relation list"
  failed_nodes :: "int set"
  requests :: "request list"

definition new_client :: client where
  "new_client = \<lparr>node_cache = Map.empty, relations_cache = Map.empty,
     reverse_relations_cache = Map.empty, failed_nodes = {}, requests = []\<rparr>"

definition get_node_info :: "world \<Rightarrow> int \<Rightarrow> client \<Rightarrow> node option \<times> client" where
  "get_node_info w node_id c =
     (case node_cache c node_id of
        Some node_info \<Rightarrow> (Some node_info, c)
      | None \<Rightarrow>
          if node_id \<in> failed_nodes c then (None, c)
          else
            (let c1 = c\<lparr>requests := requests c @ [Node_by_id node_id]\<rparr> in
             case http_node_by_id w (length (requests c)) node_id of
               Json node_info \<Rightarrow>
                 (Some node_info, c1\<lparr>node_cache := (node_cache c1)(node_id \<mapsto> node_info)\<rparr>)
             | RequestException \<Rightarrow>
                 (None, c1\<lparr>failed_nodes := insert node_id (failed_nodes c1)\<rparr>)))"

definition filter_relations :: "raw_relation list \<Rightarrow> raw_relation list" where
  "filter_relations relations =
     filter (\<lambda>rel. raw_type rel \<notin> EXCLUDED_RELATION_TYPES) relations"

text \<open>\<open>node_map = {node['id']: node for node in data['nodes']}\<close>: a later entry with
  the same id replaces an earlier one; a node without \<open>id\<close> raises.\<close>

fun build_node_map :: "node list \<Rightarrow> (int \<rightharpoonup> node) \<Rightarrow> error + (int \<rightharpoonup> node)" where
  "build_node_map [] m = Inr m"
| "build_node_map (n # ns) m =
     (case nid n of
        None \<Rightarrow> Inl KeyError
      | Some i \<Rightarrow> build_node_map ns (m(i \<mapsto> n)))"

text \<open>\<open>node_map.get(i)\<close>, and \<open>get_node_info(i)\<close> when the payload does not list the
  node.\<close>

definition resolve_node ::
  "world \<Rightarrow> (int \<rightharpoonup> node) \<Rightarrow> int \<Rightarrow> client \<Rightarrow> node option \<times> client" where
  "resolve_node w node_map i c =
     (case node_map i of
        Some n \<Rightarrow> (Some n, c)
      | None \<Rightarrow> get_node_info w i c)"

text \<open>The loop \<open>for rel in data['relations']\<close> of both accessors.\<close>

fun process_relations ::
  "world \<Rightarrow> (int \<rightharpoonup> node) \<Rightarrow> raw_relation list \<Rightarrow> relation list \<Rightarrow> client
     \<Rightarrow> (error + relation list) \<times> client" where
  "process_relations w node_map [] processed_relations c = (Inr processed_relations, c)"
| "process_relations w node_map (rel # rels) processed_relations c =
     (case resolve_node w node_map (node1 rel) c of
        (None, c1) \<Rightarrow> process_relations w node_map rels processed_relations c1
      | (Some source_node, c1) \<Rightarrow>
          (case resolve_node w node_map (node2 rel) c1 of
             (None, c2) \<Rightarrow> process_relations w node_map rels processed_relations c2
           | (Some target_node, c2) \<Rightarrow>
               (case nname source_node of
                  None \<Rightarrow> (Inl KeyError, c2)
                | Some s \<Rightarrow>
                    (case nname target_node of
                       None \<Rightarrow> (Inl KeyError, c2)
                     | Some t \<Rightarrow>
                         process_relations w node_map rels
                           (processed_relations @
                              [\<lparr>source = s, target = t, rtype = raw_type rel,
                                weight = raw_w rel\<rparr>]) c2))))"

definition get_relations_from ::
  "world \<Rightarrow> string \<Rightarrow> client \<Rightarrow> (error + relation list) \<times> client" where
  "get_relations_from w word c =
     (case relations_cache c word of
        Some cached \<Rightarrow> (Inr cached, c)
      | None \<Rightarrow>
          (let c1 = c\<lparr>requests := requests c @ [Relations_from word]\<rparr> in
           case http_relations_from w (length (requests c)) word of
             RequestException \<Rightarrow> (Inr [], c1)
           | Json Malformed \<Rightarrow> (Inr [], c1)
           | Json (Payload relations nodes) \<Rightarrow>
               (case build_node_map nodes Map.empty of
                  Inl e \<Rightarrow> (Inl e, c1)
                | Inr node_map \<Rightarrow>
                    (case process_relations w node_map (filter_relations relations) [] c1 of
                       (Inl e, c2) \<Rightarrow> (Inl e, c2)
                     | (Inr processed_relations, c2) \<Rightarrow>
                         (Inr processed_relations,
                          c2\<lparr>relations_cache :=
                               (relations_cache c2)(word \<mapsto> processed_relations)\<rparr>)))))"

definition get_relations_to ::
  "world \<Rightarrow> string \<Rightarrow> client \<Rightarrow> (error + relation list) \<times> client" where
  "get_relations_to w word c =
     (case reverse_relations_cache c word of
        Some cached \<Rightarrow> (Inr cached, c)
      | None \<Rightarrow>
          (let c1 = c\<lparr>requests := requests c @ [Relations_to word]\<rparr> in
           case http_relations_to w (length (requests c)) word of
             RequestException \<Rightarrow> (Inr [], c1)
           | Json Malformed \<Rightarrow> (Inr [], c1)
           | Json (Payload relations nodes) \<Rightarrow>
               (case build_node_map nodes Map.empty of
                  Inl e \<Rightarrow> (Inl e, c1)
                | Inr node_map \<Rightarrow>
                    (case process_relations w node_map (filter_relations relations) [] c1 of
                       (Inl e, c2) \<Rightarrow> (Inl e, c2)
                     | (Inr processed_relations, c2) \<Rightarrow>
                         (Inr processed_relations,
                          c2\<lparr>reverse_relations_cache :=
                               (reverse_relations_cache c2)(word \<mapsto> processed_relations)\<rparr>)))))"

definition startswith :: "string \<Rightarrow> string \<Rightarrow> bool" where
  "startswith s p = (take (length p) s = p)"

definition sample_words :: "string list" where
  "sample_words = [''mot'', ''sac'', ''feuille'', ''ville'', ''chaine'', ''chaise'', ''arbre'',
     ''fleur'', ''fruit'', ''lait'', ''pain'', ''fromage'', ''viande'', ''poisson'']"

text \<open>
  The loop of \<open>get_all_nodes\<close>. A response that is not a dictionary reaches the
  \<open>else\<close> branch, whose \<open>node.get\<close> raises \<open>AttributeError\<close>, which the
  handler for \<open>RequestException\<close> does not catch.
\<close>

fun all_nodes_loop ::
  "world \<Rightarrow> string list \<Rightarrow> node list \<Rightarrow> client \<Rightarrow> (error + node list) \<times> client" where
  "all_nodes_loop w [] nodes c = (Inr nodes, c)"
| "all_nodes_loop w (word # rest) nodes c =
     (let c1 = c\<lparr>requests := requests c @ [Node_by_name word]\<rparr> in
      case http_node_by_name w (length (requests c)) word of
        RequestException \<Rightarrow> all_nodes_loop w rest nodes c1
      | Json NotDict \<Rightarrow> (Inl AttributeError, c1)
      | Json (NodeDict node) \<Rightarrow>
          if \<not> startswith (case nname node of None \<Rightarrow> [] | Some s \<Rightarrow> s) ''en:''
          then all_nodes_loop w rest (nodes @ [node])
                 (case nid node of
                    None \<Rightarrow> c1
                  | Some i \<Rightarrow> c1\<lparr>node_cache := (node_cache c1)(i \<mapsto> node)\<rparr>)
          else all_nodes_loop w rest nodes c1)"

definition get_all_nodes :: "world \<Rightarrow> client \<Rightarrow> (error + node list) \<times> client" where
  "get_all_nodes w c = all_nodes_loop w sample_words [] c"

section \<open>triangle_db.py: TriangleDatabase\<close>

text \<open>
  The table \<open>processed_nodes\<close> has \<open>node_name\<close> as its primary key and one status per
  name; the table \<open>triangles\<close> is a list of rows with a uniqueness constraint on the six
  identity columns. \<open>db_log\<close> is a ghost log of the calls made so far, the call numbered
  \<open>k\<close> raising when \<open>db_raises\<close> says so; a call that raises leaves the
  tables as they were.
\<close>

datatype status = in_progress | completed

datatype db_call =
  Is_node_processed string | Mark_node_in_progress string | Mark_node_processed string
| Save_triangle triangle

record database =
  triangles_table :: "triangle list"
  processed_nodes_table :: "string \<rightharpoonup> status"
  db_log :: "db_call list"

definition is_node_processed ::
  "world \<Rightarrow> string \<Rightarrow> database \<Rightarrow> (error + bool) \<times> database" where
  "is_node_processed w node_name d =
     (let d1 = d\<lparr>db_log := db_log d @ [Is_node_processed node_name]\<rparr> in
      if db_raises w (length (db_log d)) then (Inl OperationalError, d1)
      else (Inr (processed_nodes_table d node_name = Some completed), d1))"

definition mark_node_in_progress ::
  "world \<Rightarrow> string \<Rightarrow> database \<Rightarrow> error option \<times> database" where
  "mark_node_in_progress w node_name d =
     (let d1 = d\<lparr>db_log := db_log d @ [Mark_node_in_progress node_name]\<rparr> in
      if db_raises w (length (db_log d)) then (Some OperationalError, d1)
      else (None, d1\<lparr>processed_nodes_table :=
                        (processed_nodes_table d1)(node_name \<mapsto> in_progress)\<rparr>))"

definition mark_node_processed ::
  "world \<Rightarrow> string \<Rightarrow> database \<Rightarrow> error option \<times> database" where
  "mark_node_processed w node_name d =
     (let d1 = d\<lparr>db_log := db_log d @ [Mark_node_processed node_name]\<rparr> in
      if db_raises w (length (db_log d)) then (Some OperationalError, d1)
      else (None, d1\<lparr>processed_nodes_table :=
                        (processed_nodes_table d1)(node_name \<mapsto> completed)\<rparr>))"

definition triangle_key :: "triangle \<Rightarrow> string \<times> string \<times> string \<times> int \<times> int \<times> int" where
  "triangle_key t = (A_node t, B_node t, C_node t, A_to_B t, C_to_B t, A_to_C t)"

text \<open>\<open>INSERT OR IGNORE\<close>: a row with the same identity columns is left alone and the
  call returns \<open>False\<close>.\<close>

definition save_triangle ::
  "world \<Rightarrow> triangle \<Rightarrow> database \<Rightarrow> (error + bool) \<times> database" where
  "save_triangle w t d =
     (let d1 = d\<lparr>db_log := db_log d @ [Save_triangle t]\<rparr> in
      if db_raises w (length (db_log d)) then (Inl OperationalError, d1)
      else if triangle_key t \<in> set (map triangle_key (triangles_table d)) then (Inr False, d1)
      else (Inr True, d1\<lparr>triangles_table := triangles_table d1 @ [t]\<rparr>))"

section \<open>triangle_finder.py: TriangleFinder\<close>

record finder =
  api_client :: client
  triangles :: "triangle list"
  relation_stats :: "int \<Rightarrow> nat"
  processed_nodes :: "string set"
  min_weight :: real
  max_triangles_per_node :: "int option"
  db :: "database option"

definition new_finder :: "real \<Rightarrow> int option \<Rightarrow> database option \<Rightarrow> finder" where
  "new_finder mw cap d = \<lparr>api_client = new_client, triangles = [], relation_stats = (\<lambda>_. 0),
     processed_nodes = {}, min_weight = mw, max_triangles_per_node = cap, db = d\<rparr>"

text \<open>The guarded database calls \<open>if self.db: self.db....\<close>.\<close>

definition db_is_node_processed ::
  "world \<Rightarrow> string \<Rightarrow> finder \<Rightarrow> (error + bool) \<times> finder" where
  "db_is_node_processed w node_name f =
     (case db f of
        None \<Rightarrow> (Inr False, f)
      | Some d \<Rightarrow>
          (case is_node_processed w node_name d of
             (r, d1) \<Rightarrow> (r, f\<lparr>db := Some d1\<rparr>)))"

definition db_mark_node_in_progress ::
  "world \<Rightarrow> string \<Rightarrow> finder \<Rightarrow> error option \<times> finder" where
  "db_mark_node_in_progress w node_name f =
     (case db f of
        None \<Rightarrow> (None, f)
      | Some d \<Rightarrow>
          (case mark_node_in_progress w node_name d of
             (r, d1) \<Rightarrow> (r, f\<lparr>db := Some d1\<rparr>)))"

definition db_mark_node_processed ::
  "world \<Rightarrow> string \<Rightarrow> finder \<Rightarrow> error option \<times> finder" where
  "db_mark_node_processed w node_name f =
     (case db f of
        None \<Rightarrow> (None, f)
      | Some d \<Rightarrow>
          (case mark_node_processed w node_name d of
             (r, d1) \<Rightarrow> (r, f\<lparr>db := Some d1\<rparr>)))"

definition db_save_triangle ::
  "world \<Rightarrow> triangle \<Rightarrow> finder \<Rightarrow> error option \<times> finder" where
  "db_save_triangle w t f =
     (case db f of
        None \<Rightarrow> (None, f)
      | Some d \<Rightarrow>
          (case save_triangle w t d of
             (Inl e, d1) \<Rightarrow> (Some e, f\<lparr>db := Some d1\<rparr>)
           | (Inr b, d1) \<Rightarrow> (None, f\<lparr>db := Some d1\<rparr>)))"

definition make_triangle ::
  "string \<Rightarrow> string \<Rightarrow> string \<Rightarrow> relation \<Rightarrow> relation \<Rightarrow> relation \<Rightarrow> triangle" where
  "make_triangle node_name target_b source_c rel1 rel2 rel3 =
     \<lparr>A_node = node_name, B_node = target_b, C_node = source_c,
      A_to_B = rtype rel1, C_to_B = rtype rel2, A_to_C = rtype rel3,
      A_to_B_weight = weight rel1, C_to_B_weight = weight rel2,
      A_to_C_weight = weight rel3\<rparr>"

text \<open>\<open>self.max_triangles_per_node is not None and
  triangles_for_node >= self.max_triangles_per_node\<close>.\<close>

definition cap_reached :: "finder \<Rightarrow> int \<Rightarrow> bool" where
  "cap_reached f triangles_for_node =
     (case max_triangles_per_node f of
        None \<Rightarrow> False
      | Some k \<Rightarrow> triangles_for_node \<ge> k)"

text \<open>
  How a piece of the \<open>try\<close> block ends: it falls through to the next statement, it
  executes a \<open>return\<close> with the given list, or it raises.
\<close>

datatype signal = Next | Returned "triangle list" | Raised error

text \<open>
  The innermost loop \<open>for rel3 in relations_from\<close> (lines 83 to 114), run over the
  remaining relations \<open>rel3s\<close>. \<open>next(...)\<close> on an exhausted generator raises
  \<open>StopIteration\<close>.
\<close>

fun match_loop ::
  "world \<Rightarrow> string \<Rightarrow> string \<Rightarrow> string \<Rightarrow> relation list \<Rightarrow> relation list \<Rightarrow> relation list
     \<Rightarrow> finder \<Rightarrow> int \<Rightarrow> signal \<times> finder \<times> int" where
  "match_loop w node_name target_b source_c relations_from relations_to_b [] f n =
     (Next, f, n)"
| "match_loop w node_name target_b source_c relations_from relations_to_b (rel3 # rel3s) f n =
     (if target rel3 = source_c then
        (case find (\<lambda>r. target r = target_b) relations_from of
           None \<Rightarrow> (Raised StopIteration, f, n)
         | Some rel1 \<Rightarrow>
             (case find (\<lambda>r. source r = source_c) relations_to_b of
                None \<Rightarrow> (Raised StopIteration, f, n)
              | Some rel2 \<Rightarrow>
                  (let t = make_triangle node_name target_b source_c rel1 rel2 rel3 in
                   case db_save_triangle w t (f\<lparr>triangles := triangles f @ [t]\<rparr>) of
                     (Some e, f1) \<Rightarrow> (Raised e, f1, n)
                   | (None, f1) \<Rightarrow>
                       match_loop w node_name target_b source_c relations_from relations_to_b
                         rel3s
                         (f1\<lparr>relation_stats :=
                               (relation_stats f1)
                                 (rtype rel1 := relation_stats f1 (rtype rel1) + 1)\<rparr>)
                         (n + 1))))
      else match_loop w node_name target_b source_c relations_from relations_to_b rel3s f n)"

text \<open>The loop \<open>for source_c in source_nodes\<close> (lines 76 to 114).\<close>

fun source_loop ::
  "world \<Rightarrow> string \<Rightarrow> string \<Rightarrow> relation list \<Rightarrow> relation list \<Rightarrow> string list
     \<Rightarrow> finder \<Rightarrow> int \<Rightarrow> signal \<times> finder \<times> int" where
  "source_loop w node_name target_b relations_from relations_to_b [] f n = (Next, f, n)"
| "source_loop w node_name target_b relations_from relations_to_b (source_c # rest) f n =
     (if cap_reached f n then (Returned (triangles f), f, n)
      else
        (case match_loop w node_name target_b source_c relations_from relations_to_b
                relations_from f n of
           (s, f1, n1) \<Rightarrow>
             (case s of
                Next \<Rightarrow> source_loop w node_name target_b relations_from relations_to_b rest f1 n1
              | Returned ts \<Rightarrow> (s, f1, n1)
              | Raised e \<Rightarrow> (s, f1, n1))))"

text \<open>The loop \<open>for target_b in target_nodes\<close> (lines 59 to 114).\<close>

fun target_loop ::
  "world \<Rightarrow> string \<Rightarrow> relation list \<Rightarrow> string list \<Rightarrow> finder \<Rightarrow> int
     \<Rightarrow> signal \<times> finder \<times> int" where
  "target_loop w node_name relations_from [] f n = (Next, f, n)"
| "target_loop w node_name relations_from (target_b # rest) f n =
     (if cap_reached f n then (Returned (triangles f), f, n)
      else
        (case get_relations_to w target_b (api_client f) of
           (Inl e, c1) \<Rightarrow> (Raised e, f\<lparr>api_client := c1\<rparr>, n)
         | (Inr relations_to_b, c1) \<Rightarrow>
             if relations_to_b = [] then
               target_loop w node_name relations_from rest (f\<lparr>api_client := c1\<rparr>) n
             else
               (case source_loop w node_name target_b relations_from relations_to_b
                       (set_iter w
                          (map source (filter (\<lambda>rel. source rel \<noteq> node_name) relations_to_b)))
                       (f\<lparr>api_client := c1\<rparr>) n of
                  (s, f1, n1) \<Rightarrow>
                    (case s of
                       Next \<Rightarrow> target_loop w node_name relations_from rest f1 n1
                     | Returned ts \<Rightarrow> (s, f1, n1)
                     | Raised e \<Rightarrow> (s, f1, n1)))))"

text \<open>The body of the \<open>try\<close> statement (lines 45 to 114).\<close>

definition try_body :: "world \<Rightarrow> string \<Rightarrow> finder \<Rightarrow> signal \<times> finder" where
  "try_body w node_name f =
     (case get_relations_from w node_name (api_client f) of
        (Inl e, c1) \<Rightarrow> (Raised e, f\<lparr>api_client := c1\<rparr>)
      | (Inr relations_from, c1) \<Rightarrow>
          if relations_from = [] then (Returned [], f\<lparr>api_client := c1\<rparr>)
          else
            (case target_loop w node_name relations_from
                    (set_iter w (map target relations_from)) (f\<lparr>api_client := c1\<rparr>) 0 of
               (s, f1, n1) \<Rightarrow> (s, f1)))"

text \<open>
  \<open>find_triangles\<close>. The result is the raised exception or the returned list, with the
  finder as the call leaves it. The handler \<open>except Exception\<close> turns every exception
  of the \<open>try\<close> block into the return value \<open>[]\<close>; the database calls before and after
  the block are outside it.
\<close>

definition find_triangles ::
  "world \<Rightarrow> json_node \<Rightarrow> finder \<Rightarrow> (error + triangle list) \<times> finder" where
  "find_triangles w start_node f =
     (case start_node of
        NotDict \<Rightarrow> (Inr [], f)
      | NodeDict nd \<Rightarrow>
          (case nname nd of
             None \<Rightarrow> (Inr [], f)
           | Some node_name \<Rightarrow>
               if node_name = [] then (Inr [], f)
               else
                 (case db_is_node_processed w node_name f of
                    (Inl e, f1) \<Rightarrow> (Inl e, f1)
                  | (Inr processed, f1) \<Rightarrow>
                      if processed then (Inr [], f1)
                      else if node_name \<in> processed_nodes f1 then (Inr [], f1)
                      else
                        (case db_mark_node_in_progress w node_name
                                (f1\<lparr>processed_nodes := insert node_name (processed_nodes f1)\<rparr>) of
                           (Some e, f2) \<Rightarrow> (Inl e, f2)
                         | (None, f2) \<Rightarrow>
                             (case try_body w node_name f2 of
                                (Raised e, f3) \<Rightarrow> (Inr [], f3)
                              | (Returned ts, f3) \<Rightarrow> (Inr ts, f3)
                              | (Next, f3) \<Rightarrow>
                                  (case db_mark_node_processed w node_name f3 of
                                     (Some e, f4) \<Rightarrow> (Inl e, f4)
                                   | (None, f4) \<Rightarrow> (Inr (triangles f4), f4)))))))"

text \<open>The loop \<open>for node in nodes\<close> of \<open>find_all_triangles\<close>; the value returned by
  each \<open>find_triangles\<close> is dropped, an exception it raises ends the loop.\<close>

fun find_all_loop :: "world \<Rightarrow> node list \<Rightarrow> finder \<Rightarrow> error option \<times> finder" where
  "find_all_loop w [] f = (None, f)"
| "find_all_loop w (nd # nodes) f =
     (case find_triangles w (NodeDict nd) f of
        (Inl e, f1) \<Rightarrow> (Some e, f1)
      | (Inr ts, f1) \<Rightarrow> find_all_loop w nodes f1)"

definition find_all_triangles ::
  "world \<Rightarrow> finder \<Rightarrow> (error + triangle list) \<times> finder" where
  "find_all_triangles w f =
     (case get_all_nodes w (api_client f) of
        (Inl e, c1) \<Rightarrow> (Inl e, f\<lparr>api_client := c1\<rparr>)
      | (Inr nodes, c1) \<Rightarrow>
          if nodes = [] then (Inr [], f\<lparr>api_client := c1\<rparr>)
          else
            (case find_all_loop w nodes (f\<lparr>api_client := c1\<rparr>) of
               (Some e, f1) \<Rightarrow> (Inl e, f1)
             | (None, f1) \<Rightarrow> (Inr (triangles f1), f1)))"

section \<open>Specification vocabulary\<close>

text \<open>The rows of the \<open>triangles\<close> table seen through the finder, and all triangles the
  finder knows: those of its in-memory list and those persisted.\<close>

definition db_rows :: "finder \<Rightarrow> triangle set" where
  "db_rows f = (case db f of None \<Rightarrow> {} | Some d \<Rightarrow> set (triangles_table d))"

definition known_triangles :: "finder \<Rightarrow> triangle set" where
  "known_triangles f = set (triangles f) \<union> db_rows f"

text \<open>Every memoised relation list satisfies \<open>Q\<close>.\<close>

definition cache_all :: "(relation \<Rightarrow> bool) \<Rightarrow> client \<Rightarrow> bool" where
  "cache_all Q c =
     ((\<forall>word rels. relations_cache c word = Some rels \<longrightarrow> list_all Q rels) \<and>
      (\<forall>word rels. reverse_relations_cache c word = Some rels \<longrightarrow> list_all Q rels))"

definition node_status :: "finder \<Rightarrow> string \<Rightarrow> status option" where
  "node_status f node_name =
     (case db f of None \<Rightarrow> None | Some d \<Rightarrow> processed_nodes_table d node_name)"

text \<open>Predicates of the claims: a relation or a triangle free of excluded type codes, a
  triangle on three different nodes, and a triangle whose closing node is not its seed.\<close>

definition allowed_relation :: "relation \<Rightarrow> bool" where
  "allowed_relation r = (rtype r \<notin> EXCLUDED_RELATION_TYPES)"

definition allowed_triangle :: "triangle \<Rightarrow> bool" where
  "allowed_triangle t =
     (A_to_B t \<notin> EXCLUDED_RELATION_TYPES \<and> C_to_B t \<notin> EXCLUDED_RELATION_TYPES \<and>
      A_to_C t \<notin> EXCLUDED_RELATION_TYPES)"

definition distinct_nodes :: "triangle \<Rightarrow> bool" where
  "distinct_nodes t = (A_node t \<noteq> B_node t \<and> B_node t \<noteq> C_node t \<and> C_node t \<noteq> A_node t)"

definition not_self_closing :: "triangle \<Rightarrow> bool" where
  "not_self_closing t = (C_node t \<noteq> A_node t)"

text \<open>The second finder still holds, at the head of its list, the triangles of the first.\<close>

definition keeps_triangles :: "finder \<Rightarrow> finder \<Rightarrow> bool" where
  "keeps_triangles f f' = (take (length (triangles f)) (triangles f') = triangles f)"

text \<open>\<open>node.get('name', '')\<close>, and what one answer of the node service contributes to the
  list of seeds.\<close>

definition name_or_empty :: "node \<Rightarrow> string" where
  "name_or_empty n = (case nname n of None \<Rightarrow> [] | Some s \<Rightarrow> s)"

definition kept_seed :: "json_node response \<Rightarrow> node list" where
  "kept_seed resp =
     (case resp of
        Json (NodeDict n) \<Rightarrow> if \<not> startswith (name_or_empty n) ''en:'' then [n] else []
      | _ \<Rightarrow> [])"

text \<open>The result of a loop, with the weight floor of its finder set to \<open>m\<close>.\<close>

definition with_floor :: "real \<Rightarrow> signal \<times> finder \<times> int \<Rightarrow> signal \<times> finder \<times> int" where
  "with_floor m res = (case res of (s, f, n) \<Rightarrow> (s, f\<lparr>min_weight := m\<rparr>, n))"


text \<open>
  The calls of the store logged so far, and the calls a piece of the program adds to the
  log: every added call that raises satisfies \<open>ok\<close>.
\<close>

definition db_events :: "finder \<Rightarrow> db_call list" where
  "db_events f = (case db f of None \<Rightarrow> [] | Some d \<Rightarrow> db_log d)"

definition raising_calls :: "world \<Rightarrow> finder \<Rightarrow> finder \<Rightarrow> (db_call \<Rightarrow> bool) \<Rightarrow> bool" where
  "raising_calls w f f' ok =
     (\<exists>evs. db_events f' = db_events f @ evs \<and>
        (\<forall>i<length evs. db_raises w (length (db_events f) + i) \<longrightarrow> ok (evs ! i)))"

text \<open>What the caller of \<open>find_triangles\<close> gets when a call of the store has raised: the
  empty list for \<open>save_triangle\<close>, the exception for the three calls on the node status.\<close>

definition surfaced :: "error + triangle list \<Rightarrow> db_call \<Rightarrow> bool" where
  "surfaced r ev =
     (case ev of
        Save_triangle t \<Rightarrow> r = Inr []
      | _ \<Rightarrow> r = Inl OperationalError)"

section \<open>Concrete graphs\<close>

text \<open>
  The scenario of the specification: \<open>chat\<close> is an \<open>animal\<close> (type 6), \<open>chien\<close> is an
  \<open>animal\<close> (type 6), and \<open>chat\<close> is related to \<open>chien\<close>, here by two relations of
  different types (7 and 5), as the lexical network allows.
\<close>

definition mk_node :: "int \<Rightarrow> string \<Rightarrow> node" where
  "mk_node i s = \<lparr>nid = Some i, nname = Some s\<rparr>"

definition mk_raw :: "int \<Rightarrow> int \<Rightarrow> int \<Rightarrow> real \<Rightarrow> raw_relation" where
  "mk_raw a b t x = \<lparr>node1 = a, node2 = b, raw_type = t, raw_w = x\<rparr>"

definition zoo_nodes :: "node list" where
  "zoo_nodes = [mk_node 1 ''chat'', mk_node 2 ''animal'', mk_node 3 ''chien'']"

definition zoo_from :: "string \<Rightarrow> payload response" where
  "zoo_from word =
     (if word = ''chat''
      then Json (Payload [mk_raw 1 2 6 1, mk_raw 1 3 7 (-1), mk_raw 1 3 5 2] zoo_nodes)
      else Json (Payload [] []))"

definition zoo_to :: "string \<Rightarrow> payload response" where
  "zoo_to word =
     (if word = ''animal'' then Json (Payload [mk_raw 1 2 6 1, mk_raw 3 2 6 1] zoo_nodes)
      else if word = ''chien'' then Json (Payload [mk_raw 1 3 7 (-1), mk_raw 1 3 5 2] zoo_nodes)
      else Json (Payload [] []))"

text \<open>A server that always gives the same answers, a database that never raises, and sets
  iterated in the order \<open>remdups\<close> leaves.\<close>

definition zoo :: world where
  "zoo = \<lparr>http_relations_from = (\<lambda>_. zoo_from), http_relations_to = (\<lambda>_. zoo_to),
     http_node_by_id = (\<lambda>_ _. RequestException), http_node_by_name = (\<lambda>_ _. RequestException),
     db_raises = (\<lambda>_. False), set_iter = remdups\<rparr>"

definition new_database :: database where
  "new_database = \<lparr>triangles_table = [], processed_nodes_table = Map.empty, db_log = []\<rparr>"

definition chat :: json_node where
  "chat = NodeDict (mk_node 1 ''chat'')"

definition chat_animal_chien :: "int \<Rightarrow> real \<Rightarrow> triangle" where
  "chat_animal_chien ty x =
     \<lparr>A_node = ''chat'', B_node = ''animal'', C_node = ''chien'', A_to_B = 6, C_to_B = 6,
      A_to_C = ty, A_to_B_weight = 1, C_to_B_weight = 1, A_to_C_weight = x\<rparr>"

text \<open>A second graph, in which \<open>animal\<close> and \<open>chien\<close> also point at each other, so that
  each of the two targets of \<open>chat\<close> closes a triangle whichever is visited first.\<close>

definition ring_from :: "string \<Rightarrow> payload response" where
  "ring_from word =
     (if word = ''chat'' then Json (Payload [mk_raw 1 2 6 1, mk_raw 1 3 7 (-1)] zoo_nodes)
      else Json (Payload [] []))"

definition ring_to :: "string \<Rightarrow> payload response" where
  "ring_to word =
     (if word = ''animal'' then Json (Payload [mk_raw 1 2 6 1, mk_raw 3 2 6 1] zoo_nodes)
      else if word = ''chien'' then Json (Payload [mk_raw 1 3 7 (-1), mk_raw 2 3 8 1] zoo_nodes)
      else Json (Payload [] []))"

definition ring :: world where
  "ring = zoo\<lparr>http_relations_from := (\<lambda>_. ring_from), http_relations_to := (\<lambda>_. ring_to)\<rparr>"

text \<open>A graph in which \<open>animal\<close> carries a relation to itself (type 19, a word that is its
  own lemma).\<close>

definition loop_from :: "string \<Rightarrow> payload response" where
  "loop_from word =
     (if word = ''chat'' then Json (Payload [mk_raw 1 2 6 1] zoo_nodes)
      else Json (Payload [] []))"

definition loop_to :: "string \<Rightarrow> payload response" where
  "loop_to word =
     (if word = ''animal'' then Json (Payload [mk_raw 1 2 6 1, mk_raw 2 2 19 1] zoo_nodes)
      else Json (Payload [] []))"

definition selfloop :: world where
  "selfloop =
     zoo\<lparr>http_relations_from := (\<lambda>_. loop_from), http_relations_to := (\<lambda>_. loop_to)\<rparr>"

text \<open>The server of \<open>zoo\<close> failing on the very first request, and the database of \<open>zoo\<close>
  raising on its third call.\<close>

definition flaky :: world where
  "flaky =
     zoo\<lparr>http_relations_from := (\<lambda>t. if t = 0 then (\<lambda>_. RequestException) else zoo_from),
         http_relations_to := (\<lambda>t. if t = 0 then (\<lambda>_. RequestException) else zoo_to)\<rparr>"

definition broken_db :: world where
  "broken_db = zoo\<lparr>db_raises := (\<lambda>n. n = 2)\<rparr>"

definition animal :: json_node where
  "animal = NodeDict (mk_node 2 ''animal'')"

text \<open>The graph of \<open>zoo\<close> in which the server also reports a relation of the excluded
  type 1001 from \<open>chat\<close> to \<open>chien\<close>, ahead of the one of type 7.\<close>

definition succ_from :: "string \<Rightarrow> payload response" where
  "succ_from word =
     (if word = ''chat''
      then Json (Payload [mk_raw 1 2 6 1, mk_raw 1 3 1001 5, mk_raw 1 3 7 (-1)] zoo_nodes)
      else Json (Payload [] []))"

definition zoo_succ :: world where
  "zoo_succ = zoo\<lparr>http_relations_from := (\<lambda>_. succ_from)\<rparr>"

text \<open>The relations of \<open>zoo\<close> from \<open>chat\<close> and into \<open>animal\<close>, as the accessors return
  them.\<close>

definition zoo_relations_from :: "relation list" where
  "zoo_relations_from =
     [\<lparr>source = ''chat'', target = ''animal'', rtype = 6, weight = 1\<rparr>,
      \<lparr>source = ''chat'', target = ''chien'', rtype = 7, weight = - 1\<rparr>,
      \<lparr>source = ''chat'', target = ''chien'', rtype = 5, weight = 2\<rparr>]"

definition zoo_relations_to_animal :: "relation list" where
  "zoo_relations_to_animal =
     [\<lparr>source = ''chat'', target = ''animal'', rtype = 6, weight = 1\<rparr>,
      \<lparr>source = ''chien'', target = ''animal'', rtype = 6, weight = 1\<rparr>]"

text \<open>
  A small lexicon on the sample words: \<open>mot\<close>, \<open>sac\<close> and \<open>feuille\<close> with three relations,
  one of them of negative weight; the node service knows \<open>mot\<close>, answers the word
  \<open>ville\<close> with an English node and fails on every other word.
\<close>

definition lexicon_nodes :: "node list" where
  "lexicon_nodes = [mk_node 10 ''mot'', mk_node 11 ''sac'', mk_node 12 ''feuille'']"

definition lexicon_from :: "string \<Rightarrow> payload response" where
  "lexicon_from word =
     (if word = ''mot'' then Json (Payload [mk_raw 10 11 5 1, mk_raw 10 12 6 (-2)] lexicon_nodes)
      else Json (Payload [] []))"

definition lexicon_to :: "string \<Rightarrow> payload response" where
  "lexicon_to word =
     (if word = ''sac'' then Json (Payload [mk_raw 10 11 5 1, mk_raw 12 11 7 3] lexicon_nodes)
      else if word = ''feuille'' then Json (Payload [mk_raw 10 12 6 (-2)] lexicon_nodes)
      else Json (Payload [] []))"

definition lexicon_by_name :: "string \<Rightarrow> json_node response" where
  "lexicon_by_name word =
     (if word = ''mot'' then Json (NodeDict (mk_node 10 ''mot''))
      else if word = ''ville'' then Json (NodeDict (mk_node 13 ''en:city''))
      else RequestException)"

definition lexicon :: world where
  "lexicon = \<lparr>http_relations_from = (\<lambda>_. lexicon_from), http_relations_to = (\<lambda>_. lexicon_to),
     http_node_by_id = (\<lambda>_ _. RequestException), http_node_by_name = (\<lambda>_. lexicon_by_name),
     db_raises = (\<lambda>_. False), set_iter = remdups\<rparr>"

definition mot_sac_feuille :: triangle where
  "mot_sac_feuille =
     \<lparr>A_node = ''mot'', B_node = ''sac'', C_node = ''feuille'', A_to_B = 5, C_to_B = 7,
      A_to_C = 6, A_to_B_weight = 1, C_to_B_weight = 3, A_to_C_weight = - 2\<rparr>"

text \<open>The store of \<open>zoo\<close> raising on its second call.\<close>

definition broken_mark :: world where
  "broken_mark = zoo\<lparr>db_raises := (\<lambda>n. n = 1)\<rparr>"

section \<open>Evaluation\<close>

lemmas model_defs =
  find_triangles_def new_finder_def db_is_node_processed_def db_mark_node_in_progress_def
  try_body_def get_relations_from_def new_client_def filter_relations_def
  EXCLUDED_RELATION_TYPES_def resolve_node_def cap_reached_def get_relations_to_def
  db_save_triangle_def make_triangle_def db_mark_node_processed_def get_node_info_def
  is_node_processed_def mark_node_in_progress_def mark_node_processed_def save_triangle_def
  triangle_key_def new_database_def node_status_def Let_def

lemmas zoo_defs =
  zoo_def mk_node_def zoo_from_def zoo_nodes_def mk_raw_def zoo_to_def chat_def
  chat_animal_chien_def ring_from_def ring_to_def ring_def loop_from_def loop_to_def
  selfloop_def flaky_def broken_db_def animal_def

section \<open>The per-node cap\<close>

text \<open>
  C1. With the per-node cap set to 1, the seed \<open>chat\<close> contributes two triangles: the cap
  is tested at the head of the loops over targets and over sources, but not inside the loop
  over the seed's relations that close the triangle, so every relation from \<open>chat\<close> to
  \<open>chien\<close> adds a triangle once the source \<open>chien\<close> has been entered.
\<close>

theorem find_triangles_exceeds_cap:
  "fst (find_triangles zoo chat (new_finder 0 (Some 1) None)) =
     Inr [chat_animal_chien 7 (-1), chat_animal_chien 5 2]"
  by (simp add: model_defs zoo_defs)

section \<open>Completion of a node\<close>

text \<open>
  C2. Two runs that enter processing and end normally, yet leave the node \<open>in_progress\<close>
  in the store. The seed \<open>animal\<close> has no outgoing relation: \<open>find_triangles\<close> returns
  \<open>[]\<close> from inside the \<open>try\<close> block (line 50) and never reaches
  \<open>mark_node_processed\<close>. The seed \<open>chat\<close> with cap 1 finds one triangle at its first
  target and returns at the cap test of the second (line 63), again before
  \<open>mark_node_processed\<close>.
\<close>

theorem early_return_leaves_node_in_progress:
  "fst (find_triangles zoo animal (new_finder 0 None (Some new_database))) = Inr [] \<and>
   node_status (snd (find_triangles zoo animal (new_finder 0 None (Some new_database))))
     ''animal'' = Some in_progress \<and>
   fst (find_triangles ring chat (new_finder 0 (Some 1) (Some new_database))) =
     Inr [chat_animal_chien 7 (-1)] \<and>
   node_status (snd (find_triangles ring chat (new_finder 0 (Some 1) (Some new_database))))
     ''chat'' = Some in_progress"
  by (simp add: model_defs zoo_defs)

section \<open>One step of each loop\<close>

text \<open>The ways one iteration of each loop can go, as case rules; the proofs about the loops
  go by induction on the remaining elements and use these rules at each step.\<close>

lemma db_save_triangle_frame:
  assumes "db_save_triangle w t f = (r, f')"
  shows "api_client f' = api_client f \<and> triangles f' = triangles f \<and>
     max_triangles_per_node f' = max_triangles_per_node f \<and>
     processed_nodes f' = processed_nodes f \<and> min_weight f' = min_weight f \<and>
     relation_stats f' = relation_stats f \<and> (db f' = None \<longleftrightarrow> db f = None) \<and>
     db_rows f' \<subseteq> insert t (db_rows f)"
  using assms
  by (auto simp: db_save_triangle_def save_triangle_def db_rows_def Let_def
      split: option.splits if_splits)

lemma db_rows_simps [simp]:
  "db_rows (f\<lparr>triangles := ts\<rparr>) = db_rows f"
  "db_rows (f\<lparr>relation_stats := rs\<rparr>) = db_rows f"
  "db_rows (f\<lparr>api_client := c\<rparr>) = db_rows f"
  "db_rows (f\<lparr>processed_nodes := ps\<rparr>) = db_rows f"
  "db_rows (f\<lparr>min_weight := m\<rparr>) = db_rows f"
  by (simp_all add: db_rows_def)

lemma match_loop_ConsE:
  assumes "match_loop w a b c rf rt (r3 # rs) f n = (s, f', n')"
  obtains
    (skip) "target r3 \<noteq> c" "match_loop w a b c rf rt rs f n = (s, f', n')"
  | (stop) "target r3 = c" "s = Raised StopIteration" "f' = f" "n' = n"
  | (raise) r1 r2 e where "target r3 = c"
      "find (\<lambda>r. target r = b) rf = Some r1" "find (\<lambda>r. source r = c) rt = Some r2"
      "db_save_triangle w (make_triangle a b c r1 r2 r3)
         (f\<lparr>triangles := triangles f @ [make_triangle a b c r1 r2 r3]\<rparr>) = (Some e, f')"
      "s = Raised e" "n' = n"
  | (step) r1 r2 g where "target r3 = c"
      "find (\<lambda>r. target r = b) rf = Some r1" "find (\<lambda>r. source r = c) rt = Some r2"
      "db_save_triangle w (make_triangle a b c r1 r2 r3)
         (f\<lparr>triangles := triangles f @ [make_triangle a b c r1 r2 r3]\<rparr>) = (None, g)"
      "match_loop w a b c rf rt rs
         (g\<lparr>relation_stats := (relation_stats g)(rtype r1 := relation_stats g (rtype r1) + 1)\<rparr>)
         (n + 1) = (s, f', n')"
  using assms
  by (auto simp: Let_def split: if_splits option.splits prod.splits)


lemma find_in_set: "find p xs = Some x \<Longrightarrow> x \<in> set xs \<and> p x"
  by (auto simp: find_Some_iff)

lemma db_save_triangle_known:
  assumes "db_save_triangle w t (f\<lparr>triangles := triangles f @ [t]\<rparr>) = (r, g)"
  shows "known_triangles g \<subseteq> insert t (known_triangles f)"
  using db_save_triangle_frame[OF assms]
  by (auto simp: known_triangles_def)

lemma match_loop_frame:
  "match_loop w a b c rf rt rs f n = (s, f', n') \<Longrightarrow>
     api_client f' = api_client f \<and> max_triangles_per_node f' = max_triangles_per_node f \<and>
     processed_nodes f' = processed_nodes f \<and> min_weight f' = min_weight f \<and>
     (db f' = None \<longleftrightarrow> db f = None)"
proof (induction rs arbitrary: f n)
  case Nil
  then show ?case by simp
next
  case (Cons r3 rs)
  from Cons.prems show ?case
  proof (cases rule: match_loop_ConsE)
    case skip
    from Cons.IH[OF skip(2)] show ?thesis .
  next
    case stop
    then show ?thesis by simp
  next
    case (raise r1 r2 e)
    from db_save_triangle_frame[OF raise(4)] show ?thesis by simp
  next
    case (step r1 r2 g)
    from db_save_triangle_frame[OF step(4)] Cons.IH[OF step(5)] show ?thesis by simp
  qed
qed

lemma match_loop_known:
  assumes "match_loop w a b c rf rt rs f n = (s, f', n')"
    and "\<forall>t\<in>known_triangles f. P t"
    and "\<And>r1 r2 r3. r1 \<in> set rf \<Longrightarrow> r2 \<in> set rt \<Longrightarrow> r3 \<in> set rs \<Longrightarrow>
           P (make_triangle a b c r1 r2 r3)"
  shows "\<forall>t\<in>known_triangles f'. P t"
  using assms
proof (induction rs arbitrary: f n)
  case Nil
  then show ?case by simp
next
  case (Cons r3 rs)
  have later: "\<And>r1 r2 r. r1 \<in> set rf \<Longrightarrow> r2 \<in> set rt \<Longrightarrow> r \<in> set rs \<Longrightarrow>
           P (make_triangle a b c r1 r2 r)"
    using Cons.prems(3) by simp
  from Cons.prems(1) show ?case
  proof (cases rule: match_loop_ConsE)
    case skip
    from Cons.IH[OF skip(2) Cons.prems(2) later] show ?thesis .
  next
    case stop
    with Cons.prems(2) show ?thesis by simp
  next
    case (raise r1 r2 e)
    have "P (make_triangle a b c r1 r2 r3)"
      using Cons.prems(3) find_in_set[OF raise(2)] find_in_set[OF raise(3)] by simp
    with db_save_triangle_known[OF raise(4)] Cons.prems(2) show ?thesis by blast
  next
    case (step r1 r2 g)
    have new: "P (make_triangle a b c r1 r2 r3)"
      using Cons.prems(3) find_in_set[OF step(2)] find_in_set[OF step(3)] by simp
    let ?g = "g\<lparr>relation_stats := (relation_stats g)(rtype r1 := relation_stats g (rtype r1) + 1)\<rparr>"
    have "known_triangles ?g = known_triangles g"
      by (simp add: known_triangles_def)
    with db_save_triangle_known[OF step(4)] Cons.prems(2) new
    have "\<forall>t\<in>known_triangles ?g. P t" by blast
    from Cons.IH[OF step(5) this later] show ?thesis .
  qed
qed


lemma source_loop_ConsE:
  assumes "source_loop w a b rf rt (c # cs) f n = (s, f', n')"
  obtains
    (cap) "cap_reached f n" "s = Returned (triangles f)" "f' = f" "n' = n"
  | (stop) "\<not> cap_reached f n" "match_loop w a b c rf rt rf f n = (s, f', n')" "s \<noteq> Next"
  | (cont) f1 n1 where "\<not> cap_reached f n" "match_loop w a b c rf rt rf f n = (Next, f1, n1)"
      "source_loop w a b rf rt cs f1 n1 = (s, f', n')"
proof (cases "cap_reached f n")
  case True
  with assms have "s = Returned (triangles f)" "f' = f" "n' = n" by auto
  with True show ?thesis by (rule cap)
next
  case False
  obtain s1 f1 n1 where m: "match_loop w a b c rf rt rf f n = (s1, f1, n1)"
    by (cases "match_loop w a b c rf rt rf f n") auto
  show ?thesis
  proof (cases "s1 = Next")
    case True
    with m have m': "match_loop w a b c rf rt rf f n = (Next, f1, n1)" by simp
    from assms False m' have "source_loop w a b rf rt cs f1 n1 = (s, f', n')" by simp
    with False m' show ?thesis by (rule cont)
  next
    case other: False
    with assms False m have "(s1, f1, n1) = (s, f', n')"
      by (cases s1) simp_all
    with m other have "match_loop w a b c rf rt rf f n = (s, f', n')" "s \<noteq> Next" by simp_all
    with False show ?thesis by (rule stop)
  qed
qed

lemma target_loop_ConsE:
  assumes "target_loop w a rf (b # bs) f n = (s, f', n')"
  obtains
    (cap) "cap_reached f n" "s = Returned (triangles f)" "f' = f" "n' = n"
  | (fetch_raise) e c1 where "\<not> cap_reached f n"
      "get_relations_to w b (api_client f) = (Inl e, c1)"
      "s = Raised e" "f' = f\<lparr>api_client := c1\<rparr>" "n' = n"
  | (empty) c1 where "\<not> cap_reached f n"
      "get_relations_to w b (api_client f) = (Inr [], c1)"
      "target_loop w a rf bs (f\<lparr>api_client := c1\<rparr>) n = (s, f', n')"
  | (stop) rt c1 where "\<not> cap_reached f n"
      "get_relations_to w b (api_client f) = (Inr rt, c1)" "rt \<noteq> []"
      "source_loop w a b rf rt
         (set_iter w (map source (filter (\<lambda>rel. source rel \<noteq> a) rt)))
         (f\<lparr>api_client := c1\<rparr>) n = (s, f', n')" "s \<noteq> Next"
  | (cont) rt c1 f1 n1 where "\<not> cap_reached f n"
      "get_relations_to w b (api_client f) = (Inr rt, c1)" "rt \<noteq> []"
      "source_loop w a b rf rt
         (set_iter w (map source (filter (\<lambda>rel. source rel \<noteq> a) rt)))
         (f\<lparr>api_client := c1\<rparr>) n = (Next, f1, n1)"
      "target_loop w a rf bs f1 n1 = (s, f', n')"
proof (cases "cap_reached f n")
  case True
  with assms have "s = Returned (triangles f)" "f' = f" "n' = n" by auto
  with True show ?thesis by (rule cap)
next
  case False
  obtain r c1 where g: "get_relations_to w b (api_client f) = (r, c1)"
    by (cases "get_relations_to w b (api_client f)") auto
  show ?thesis
  proof (cases r)
    case (Inl e)
    with g have g': "get_relations_to w b (api_client f) = (Inl e, c1)" by simp
    from assms False g' have "s = Raised e" "f' = f\<lparr>api_client := c1\<rparr>" "n' = n" by auto
    with False g' show ?thesis by (rule fetch_raise)
  next
    case (Inr rt)
    with g have g': "get_relations_to w b (api_client f) = (Inr rt, c1)" by simp
    show ?thesis
    proof (cases "rt = []")
      case True
      with g' have g'': "get_relations_to w b (api_client f) = (Inr [], c1)" by simp
      from assms False g''
      have "target_loop w a rf bs (f\<lparr>api_client := c1\<rparr>) n = (s, f', n')" by simp
      with False g'' show ?thesis by (rule empty)
    next
      case nonempty: False
      obtain s1 f1 n1 where sl: "source_loop w a b rf rt
         (set_iter w (map source (filter (\<lambda>rel. source rel \<noteq> a) rt)))
         (f\<lparr>api_client := c1\<rparr>) n = (s1, f1, n1)"
        by (cases "source_loop w a b rf rt
         (set_iter w (map source (filter (\<lambda>rel. source rel \<noteq> a) rt)))
         (f\<lparr>api_client := c1\<rparr>) n") auto
      show ?thesis
      proof (cases "s1 = Next")
        case True
        with sl have sl': "source_loop w a b rf rt
         (set_iter w (map source (filter (\<lambda>rel. source rel \<noteq> a) rt)))
         (f\<lparr>api_client := c1\<rparr>) n = (Next, f1, n1)" by simp
        from assms False g' nonempty sl'
        have "target_loop w a rf bs f1 n1 = (s, f', n')" by simp
        with False g' nonempty sl' show ?thesis by (rule cont)
      next
        case other: False
        with assms False g' nonempty sl have "(s1, f1, n1) = (s, f', n')"
          by (cases s1) simp_all
        with sl other have "source_loop w a b rf rt
         (set_iter w (map source (filter (\<lambda>rel. source rel \<noteq> a) rt)))
         (f\<lparr>api_client := c1\<rparr>) n = (s, f', n')" "s \<noteq> Next" by simp_all
        with False g' nonempty show ?thesis by (rule stop)
      qed
    qed
  qed
qed

section \<open>The relation accessors\<close>

lemma get_node_info_frame:
  "get_node_info w i c = (r, c') \<Longrightarrow>
     relations_cache c' = relations_cache c \<and>
     reverse_relations_cache c' = reverse_relations_cache c"
  by (auto simp: get_node_info_def Let_def split: option.splits if_splits response.splits)

lemma resolve_node_frame:
  "resolve_node w nm i c = (r, c') \<Longrightarrow>
     relations_cache c' = relations_cache c \<and>
     reverse_relations_cache c' = reverse_relations_cache c"
  by (auto simp: resolve_node_def split: option.splits dest: get_node_info_frame)

lemma process_relations_ConsE:
  assumes "process_relations w nm (rel # rels) acc c = (r, c')"
  obtains
    (no_source) c1 where "resolve_node w nm (node1 rel) c = (None, c1)"
      "process_relations w nm rels acc c1 = (r, c')"
  | (no_target) sn c1 c2 where "resolve_node w nm (node1 rel) c = (Some sn, c1)"
      "resolve_node w nm (node2 rel) c1 = (None, c2)"
      "process_relations w nm rels acc c2 = (r, c')"
  | (key_error) sn tn c1 where "resolve_node w nm (node1 rel) c = (Some sn, c1)"
      "resolve_node w nm (node2 rel) c1 = (Some tn, c')"
      "nname sn = None \<or> nname tn = None" "r = Inl KeyError"
  | (append) sn tn c1 c2 s t where "resolve_node w nm (node1 rel) c = (Some sn, c1)"
      "resolve_node w nm (node2 rel) c1 = (Some tn, c2)"
      "nname sn = Some s" "nname tn = Some t"
      "process_relations w nm rels
         (acc @ [\<lparr>source = s, target = t, rtype = raw_type rel, weight = raw_w rel\<rparr>]) c2
       = (r, c')"
  using assms
  by (auto split: prod.splits option.splits)

lemma process_relations_inv:
  assumes "process_relations w nm rels acc c = (r, c')"
    and "list_all Q acc"
    and "\<And>s t rel. rel \<in> set rels \<Longrightarrow>
           Q \<lparr>source = s, target = t, rtype = raw_type rel, weight = raw_w rel\<rparr>"
  shows "relations_cache c' = relations_cache c \<and>
     reverse_relations_cache c' = reverse_relations_cache c \<and>
     (\<forall>out. r = Inr out \<longrightarrow> list_all Q out)"
  using assms
proof (induction rels arbitrary: acc c)
  case Nil
  then show ?case by auto
next
  case (Cons rel rels)
  have rest: "\<And>s t x. x \<in> set rels \<Longrightarrow>
           Q \<lparr>source = s, target = t, rtype = raw_type x, weight = raw_w x\<rparr>"
    using Cons.prems(3) by simp
  from Cons.prems(1) show ?case
  proof (cases rule: process_relations_ConsE)
    case (no_source c1)
    from Cons.IH[OF no_source(2) Cons.prems(2) rest] resolve_node_frame[OF no_source(1)]
    show ?thesis by simp
  next
    case (no_target sn c1 c2)
    from Cons.IH[OF no_target(3) Cons.prems(2) rest] resolve_node_frame[OF no_target(1)]
      resolve_node_frame[OF no_target(2)]
    show ?thesis by simp
  next
    case (key_error sn tn c1)
    from resolve_node_frame[OF key_error(1)] resolve_node_frame[OF key_error(2)] key_error(4)
    show ?thesis by simp
  next
    case (append sn tn c1 c2 s t)
    have "list_all Q (acc @ [\<lparr>source = s, target = t, rtype = raw_type rel, weight = raw_w rel\<rparr>])"
      using Cons.prems(2) Cons.prems(3)[of rel s t] by simp
    from Cons.IH[OF append(5) this rest] resolve_node_frame[OF append(1)]
      resolve_node_frame[OF append(2)]
    show ?thesis by simp
  qed
qed


lemma get_relations_from_cases:
  assumes "get_relations_from w word c = (r, c')"
  obtains
    (hit) cached where "relations_cache c word = Some cached" "r = Inr cached" "c' = c"
  | (failed) "relations_cache c word = None"
      "http_relations_from w (length (requests c)) word = RequestException \<or>
       http_relations_from w (length (requests c)) word = Json Malformed"
      "r = Inr []" "c' = c\<lparr>requests := requests c @ [Relations_from word]\<rparr>"
  | (bad_nodes) rels nodes e where "relations_cache c word = None"
      "http_relations_from w (length (requests c)) word = Json (Payload rels nodes)"
      "build_node_map nodes Map.empty = Inl e"
      "r = Inl e" "c' = c\<lparr>requests := requests c @ [Relations_from word]\<rparr>"
  | (raised) rels nodes nm e where "relations_cache c word = None"
      "http_relations_from w (length (requests c)) word = Json (Payload rels nodes)"
      "build_node_map nodes Map.empty = Inr nm"
      "process_relations w nm (filter_relations rels) []
         (c\<lparr>requests := requests c @ [Relations_from word]\<rparr>) = (Inl e, c')"
      "r = Inl e"
  | (fetched) rels nodes nm out c2 where "relations_cache c word = None"
      "http_relations_from w (length (requests c)) word = Json (Payload rels nodes)"
      "build_node_map nodes Map.empty = Inr nm"
      "process_relations w nm (filter_relations rels) []
         (c\<lparr>requests := requests c @ [Relations_from word]\<rparr>) = (Inr out, c2)"
      "r = Inr out" "c' = c2\<lparr>relations_cache := (relations_cache c2)(word \<mapsto> out)\<rparr>"
  using assms unfolding get_relations_from_def Let_def
  by (auto split: option.splits response.splits payload.splits sum.splits prod.splits)

lemma get_relations_to_cases:
  assumes "get_relations_to w word c = (r, c')"
  obtains
    (hit) cached where "reverse_relations_cache c word = Some cached" "r = Inr cached" "c' = c"
  | (failed) "reverse_relations_cache c word = None"
      "http_relations_to w (length (requests c)) word = RequestException \<or>
       http_relations_to w (length (requests c)) word = Json Malformed"
      "r = Inr []" "c' = c\<lparr>requests := requests c @ [Relations_to word]\<rparr>"
  | (bad_nodes) rels nodes e where "reverse_relations_cache c word = None"
      "http_relations_to w (length (requests c)) word = Json (Payload rels nodes)"
      "build_node_map nodes Map.empty = Inl e"
      "r = Inl e" "c' = c\<lparr>requests := requests c @ [Relations_to word]\<rparr>"
  | (raised) rels nodes nm e where "reverse_relations_cache c word = None"
      "http_relations_to w (length (requests c)) word = Json (Payload rels nodes)"
      "build_node_map nodes Map.empty = Inr nm"
      "process_relations w nm (filter_relations rels) []
         (c\<lparr>requests := requests c @ [Relations_to word]\<rparr>) = (Inl e, c')"
      "r = Inl e"
  | (fetched) rels nodes nm out c2 where "reverse_relations_cache c word = None"
      "http_relations_to w (length (requests c)) word = Json (Payload rels nodes)"
      "build_node_map nodes Map.empty = Inr nm"
      "process_relations w nm (filter_relations rels) []
         (c\<lparr>requests := requests c @ [Relations_to word]\<rparr>) = (Inr out, c2)"
      "r = Inr out" "c' = c2\<lparr>reverse_relations_cache := (reverse_relations_cache c2)(word \<mapsto> out)\<rparr>"
  using assms unfolding get_relations_to_def Let_def
  by (auto split: option.splits response.splits payload.splits sum.splits prod.splits)

lemma filter_relations_types:
  "rel \<in> set (filter_relations rels) \<Longrightarrow> raw_type rel \<notin> EXCLUDED_RELATION_TYPES"
  by (simp add: filter_relations_def)

lemma get_relations_from_inv:
  assumes "get_relations_from w word c = (r, c')"
    and "cache_all Q c"
    and "\<And>s t ty x. ty \<notin> EXCLUDED_RELATION_TYPES \<Longrightarrow>
           Q \<lparr>source = s, target = t, rtype = ty, weight = x\<rparr>"
  shows "cache_all Q c' \<and> (\<forall>out. r = Inr out \<longrightarrow> list_all Q out)"
  using assms(1)
proof (cases rule: get_relations_from_cases)
  case (hit cached)
  with assms(2) show ?thesis by (auto simp: cache_all_def)
next
  case failed
  with assms(2) show ?thesis by (simp add: cache_all_def)
next
  case (bad_nodes rels nodes e)
  with assms(2) show ?thesis by (simp add: cache_all_def)
next
  case (raised rels nodes nm e)
  from process_relations_inv[OF raised(4), of Q] assms(2,3) filter_relations_types raised(5)
  show ?thesis by (simp add: cache_all_def)
next
  case (fetched rels nodes nm out c2)
  from process_relations_inv[OF fetched(4), of Q] assms(3) filter_relations_types
  have "relations_cache c2 = relations_cache c"
    "reverse_relations_cache c2 = reverse_relations_cache c" "list_all Q out"
    by simp_all
  with assms(2) fetched(5,6) show ?thesis by (auto simp: cache_all_def)
qed

lemma get_relations_to_inv:
  assumes "get_relations_to w word c = (r, c')"
    and "cache_all Q c"
    and "\<And>s t ty x. ty \<notin> EXCLUDED_RELATION_TYPES \<Longrightarrow>
           Q \<lparr>source = s, target = t, rtype = ty, weight = x\<rparr>"
  shows "cache_all Q c' \<and> (\<forall>out. r = Inr out \<longrightarrow> list_all Q out)"
  using assms(1)
proof (cases rule: get_relations_to_cases)
  case (hit cached)
  with assms(2) show ?thesis by (auto simp: cache_all_def)
next
  case failed
  with assms(2) show ?thesis by (simp add: cache_all_def)
next
  case (bad_nodes rels nodes e)
  with assms(2) show ?thesis by (simp add: cache_all_def)
next
  case (raised rels nodes nm e)
  from process_relations_inv[OF raised(4), of Q] assms(2,3) filter_relations_types raised(5)
  show ?thesis by (simp add: cache_all_def)
next
  case (fetched rels nodes nm out c2)
  from process_relations_inv[OF fetched(4), of Q] assms(3) filter_relations_types
  have "relations_cache c2 = relations_cache c"
    "reverse_relations_cache c2 = reverse_relations_cache c" "list_all Q out"
    by simp_all
  with assms(2) fetched(5,6) show ?thesis by (auto simp: cache_all_def)
qed

section \<open>find_triangles\<close>

lemma try_body_cases:
  assumes "try_body w name f = (s, f')"
  obtains
    (fetch_raised) e c1 where "get_relations_from w name (api_client f) = (Inl e, c1)"
      "s = Raised e" "f' = f\<lparr>api_client := c1\<rparr>"
  | (no_relations) c1 where "get_relations_from w name (api_client f) = (Inr [], c1)"
      "s = Returned []" "f' = f\<lparr>api_client := c1\<rparr>"
  | (looped) rf c1 n' where "get_relations_from w name (api_client f) = (Inr rf, c1)"
      "rf \<noteq> []"
      "target_loop w name rf (set_iter w (map target rf)) (f\<lparr>api_client := c1\<rparr>) 0
         = (s, f', n')"
  using assms unfolding try_body_def
  by (auto split: prod.splits sum.splits if_splits)

lemma find_triangles_cases:
  assumes "find_triangles w start_node f = (r, f')"
  obtains
    (not_dict) "start_node = NotDict" "r = Inr []" "f' = f"
  | (no_name) nd where "start_node = NodeDict nd" "nname nd = None \<or> nname nd = Some []"
      "r = Inr []" "f' = f"
  | (check_raised) nd name e where "start_node = NodeDict nd" "nname nd = Some name"
      "name \<noteq> []" "db_is_node_processed w name f = (Inl e, f')" "r = Inl e"
  | (already_done) nd name where "start_node = NodeDict nd" "nname nd = Some name"
      "name \<noteq> []" "db_is_node_processed w name f = (Inr True, f')" "r = Inr []"
  | (visited) nd name where "start_node = NodeDict nd" "nname nd = Some name"
      "name \<noteq> []" "db_is_node_processed w name f = (Inr False, f')"
      "name \<in> processed_nodes f'" "r = Inr []"
  | (mark_raised) nd name f1 e where "start_node = NodeDict nd" "nname nd = Some name"
      "name \<noteq> []" "db_is_node_processed w name f = (Inr False, f1)"
      "name \<notin> processed_nodes f1"
      "db_mark_node_in_progress w name
         (f1\<lparr>processed_nodes := insert name (processed_nodes f1)\<rparr>) = (Some e, f')"
      "r = Inl e"
  | (body_raised) nd name f1 f2 e where "start_node = NodeDict nd" "nname nd = Some name"
      "name \<noteq> []" "db_is_node_processed w name f = (Inr False, f1)"
      "name \<notin> processed_nodes f1"
      "db_mark_node_in_progress w name
         (f1\<lparr>processed_nodes := insert name (processed_nodes f1)\<rparr>) = (None, f2)"
      "try_body w name f2 = (Raised e, f')" "r = Inr []"
  | (body_returned) nd name f1 f2 ts where "start_node = NodeDict nd" "nname nd = Some name"
      "name \<noteq> []" "db_is_node_processed w name f = (Inr False, f1)"
      "name \<notin> processed_nodes f1"
      "db_mark_node_in_progress w name
         (f1\<lparr>processed_nodes := insert name (processed_nodes f1)\<rparr>) = (None, f2)"
      "try_body w name f2 = (Returned ts, f')" "r = Inr ts"
  | (done_raised) nd name f1 f2 f3 e where "start_node = NodeDict nd" "nname nd = Some name"
      "name \<noteq> []" "db_is_node_processed w name f = (Inr False, f1)"
      "name \<notin> processed_nodes f1"
      "db_mark_node_in_progress w name
         (f1\<lparr>processed_nodes := insert name (processed_nodes f1)\<rparr>) = (None, f2)"
      "try_body w name f2 = (Next, f3)"
      "db_mark_node_processed w name f3 = (Some e, f')" "r = Inl e"
  | (completed) nd name f1 f2 f3 where "start_node = NodeDict nd" "nname nd = Some name"
      "name \<noteq> []" "db_is_node_processed w name f = (Inr False, f1)"
      "name \<notin> processed_nodes f1"
      "db_mark_node_in_progress w name
         (f1\<lparr>processed_nodes := insert name (processed_nodes f1)\<rparr>) = (None, f2)"
      "try_body w name f2 = (Next, f3)"
      "db_mark_node_processed w name f3 = (None, f')" "r = Inr (triangles f')"
proof (cases start_node)
  case NotDict
  with assms have "r = Inr []" "f' = f" by (auto simp: find_triangles_def)
  with NotDict show ?thesis by (rule not_dict)
next
  case (NodeDict nd)
  note nd = this
  show ?thesis
  proof (cases "nname nd = None \<or> nname nd = Some []")
    case True
    with assms nd have "r = Inr []" "f' = f" by (auto simp: find_triangles_def)
    with nd True show ?thesis by (rule no_name)
  next
    case False
    then obtain name where name: "nname nd = Some name" "name \<noteq> []" by auto
    obtain r1 f1 where chk: "db_is_node_processed w name f = (r1, f1)"
      by (cases "db_is_node_processed w name f") auto
    show ?thesis
    proof (cases r1)
      case (Inl e)
      with assms nd name chk have "r = Inl e" "f' = f1" by (auto simp: find_triangles_def)
      with nd name chk Inl show ?thesis by (intro check_raised[of nd name e]) auto
    next
      case (Inr p)
      show ?thesis
      proof (cases "p \<or> name \<in> processed_nodes f1")
        case True
        with assms nd name chk Inr have res: "r = Inr []" "f' = f1"
          by (auto simp: find_triangles_def split: if_splits)
        show ?thesis
        proof (cases p)
          case True
          with nd name chk Inr res show ?thesis by (intro already_done[of nd name]) auto
        next
          case False
          with nd name chk Inr res \<open>p \<or> name \<in> processed_nodes f1\<close>
          show ?thesis by (intro visited[of nd name]) auto
        qed
      next
        case False
        with chk Inr have chk': "db_is_node_processed w name f = (Inr False, f1)"
          and fresh: "name \<notin> processed_nodes f1" by auto
        obtain m f2 where mk: "db_mark_node_in_progress w name
            (f1\<lparr>processed_nodes := insert name (processed_nodes f1)\<rparr>) = (m, f2)"
          by (cases "db_mark_node_in_progress w name
            (f1\<lparr>processed_nodes := insert name (processed_nodes f1)\<rparr>)") auto
        show ?thesis
        proof (cases m)
          case (Some e)
          with assms nd name chk' fresh mk have "r = Inl e" "f' = f2"
            by (auto simp: find_triangles_def)
          with nd name chk' fresh mk Some show ?thesis
            by (intro mark_raised[of nd name f1 e]) auto
        next
          case None
          with mk have mk': "db_mark_node_in_progress w name
            (f1\<lparr>processed_nodes := insert name (processed_nodes f1)\<rparr>) = (None, f2)" by simp
          obtain s f3 where tb: "try_body w name f2 = (s, f3)"
            by (cases "try_body w name f2") auto
          show ?thesis
          proof (cases s)
            case (Raised e)
            with assms nd name chk' fresh mk' tb have "r = Inr []" "f' = f3"
              by (auto simp: find_triangles_def)
            with nd name chk' fresh mk' tb Raised show ?thesis
              by (intro body_raised[of nd name f1 f2 e]) auto
          next
            case (Returned ts)
            with assms nd name chk' fresh mk' tb have "r = Inr ts" "f' = f3"
              by (auto simp: find_triangles_def)
            with nd name chk' fresh mk' tb Returned show ?thesis
              by (intro body_returned[of nd name f1 f2 ts]) auto
          next
            case Next
            obtain d f4 where dn: "db_mark_node_processed w name f3 = (d, f4)"
              by (cases "db_mark_node_processed w name f3") auto
            show ?thesis
            proof (cases d)
              case (Some e)
              with assms nd name chk' fresh mk' tb Next dn have "r = Inl e" "f' = f4"
                by (auto simp: find_triangles_def)
              with nd name chk' fresh mk' tb Next dn Some show ?thesis
                by (intro done_raised[of nd name f1 f2 f3 e]) auto
            next
              case None
              with assms nd name chk' fresh mk' tb Next dn
              have "r = Inr (triangles f4)" "f' = f4"
                by (auto simp: find_triangles_def)
              with nd name chk' fresh mk' tb Next dn None show ?thesis
                by (intro completed[of nd name f1 f2 f3]) auto
            qed
          qed
        qed
      qed
    qed
  qed
qed


lemma db_is_node_processed_frame:
  "db_is_node_processed w name f = (r, f') \<Longrightarrow>
     api_client f' = api_client f \<and> triangles f' = triangles f \<and>
     max_triangles_per_node f' = max_triangles_per_node f \<and>
     processed_nodes f' = processed_nodes f \<and> min_weight f' = min_weight f \<and>
     relation_stats f' = relation_stats f \<and> (db f' = None \<longleftrightarrow> db f = None) \<and>
     db_rows f' = db_rows f"
  by (auto simp: db_is_node_processed_def is_node_processed_def db_rows_def Let_def
      split: option.splits if_splits)

lemma db_mark_node_in_progress_frame:
  "db_mark_node_in_progress w name f = (r, f') \<Longrightarrow>
     api_client f' = api_client f \<and> triangles f' = triangles f \<and>
     max_triangles_per_node f' = max_triangles_per_node f \<and>
     processed_nodes f' = processed_nodes f \<and> min_weight f' = min_weight f \<and>
     relation_stats f' = relation_stats f \<and> (db f' = None \<longleftrightarrow> db f = None) \<and>
     db_rows f' = db_rows f"
  by (auto simp: db_mark_node_in_progress_def mark_node_in_progress_def db_rows_def Let_def
      split: option.splits if_splits)

lemma db_mark_node_processed_frame:
  "db_mark_node_processed w name f = (r, f') \<Longrightarrow>
     api_client f' = api_client f \<and> triangles f' = triangles f \<and>
     max_triangles_per_node f' = max_triangles_per_node f \<and>
     processed_nodes f' = processed_nodes f \<and> min_weight f' = min_weight f \<and>
     relation_stats f' = relation_stats f \<and> (db f' = None \<longleftrightarrow> db f = None) \<and>
     db_rows f' = db_rows f"
  by (auto simp: db_mark_node_processed_def mark_node_processed_def db_rows_def Let_def
      split: option.splits if_splits)

lemma known_triangles_simps [simp]:
  "known_triangles (f\<lparr>api_client := c\<rparr>) = known_triangles f"
  "known_triangles (f\<lparr>processed_nodes := ps\<rparr>) = known_triangles f"
  "known_triangles (f\<lparr>relation_stats := rs\<rparr>) = known_triangles f"
  "known_triangles (f\<lparr>min_weight := m\<rparr>) = known_triangles f"
  by (simp_all add: known_triangles_def)

lemma source_loop_known:
  assumes "source_loop w a b rf rt cs f n = (s, f', n')"
    and "\<forall>t\<in>known_triangles f. P t"
    and "\<And>c r1 r2 r3. c \<in> set cs \<Longrightarrow> r1 \<in> set rf \<Longrightarrow> r2 \<in> set rt \<Longrightarrow> r3 \<in> set rf \<Longrightarrow>
           P (make_triangle a b c r1 r2 r3)"
  shows "(\<forall>t\<in>known_triangles f'. P t) \<and> api_client f' = api_client f"
  using assms
proof (induction cs arbitrary: f n)
  case Nil
  then show ?case by simp
next
  case (Cons c cs)
  have here: "\<And>r1 r2 r3. r1 \<in> set rf \<Longrightarrow> r2 \<in> set rt \<Longrightarrow> r3 \<in> set rf \<Longrightarrow>
           P (make_triangle a b c r1 r2 r3)"
    using Cons.prems(3) by simp
  have later: "\<And>x r1 r2 r3. x \<in> set cs \<Longrightarrow> r1 \<in> set rf \<Longrightarrow> r2 \<in> set rt \<Longrightarrow>
           r3 \<in> set rf \<Longrightarrow> P (make_triangle a b x r1 r2 r3)"
    using Cons.prems(3) by simp
  from Cons.prems(1) show ?case
  proof (cases rule: source_loop_ConsE)
    case cap
    with Cons.prems(2) show ?thesis by simp
  next
    case stop
    from match_loop_known[OF stop(2) Cons.prems(2) here] match_loop_frame[OF stop(2)]
    show ?thesis by simp
  next
    case (cont f1 n1)
    from match_loop_known[OF cont(2) Cons.prems(2) here]
    have "\<forall>t\<in>known_triangles f1. P t" .
    from Cons.IH[OF cont(3) this later] match_loop_frame[OF cont(2)]
    show ?thesis by simp
  qed
qed

lemma target_loop_known:
  assumes "target_loop w a rf bs f n = (s, f', n')"
    and "\<forall>t\<in>known_triangles f. P t"
    and "cache_all Q (api_client f)"
    and "list_all Q rf"
    and QR: "\<And>s t ty x. ty \<notin> EXCLUDED_RELATION_TYPES \<Longrightarrow>
           Q \<lparr>source = s, target = t, rtype = ty, weight = x\<rparr>"
    and PQ: "\<And>b c r1 r2 r3. (set_iter_ok w \<longrightarrow> c \<noteq> a) \<Longrightarrow> Q r1 \<Longrightarrow> Q r2 \<Longrightarrow> Q r3 \<Longrightarrow>
           P (make_triangle a b c r1 r2 r3)"
  shows "(\<forall>t\<in>known_triangles f'. P t) \<and> cache_all Q (api_client f')"
  using assms(1-3)
proof (induction bs arbitrary: f n)
  case Nil
  then show ?case by simp
next
  case (Cons b bs)
  have candidates: "P (make_triangle a b c r1 r2 r3)"
    if "c \<in> set (set_iter w (map source (filter (\<lambda>rel. source rel \<noteq> a) rt)))"
      "r1 \<in> set rf" "r2 \<in> set rt" "r3 \<in> set rf" "list_all Q rt" for rt c r1 r2 r3
  proof (rule PQ)
    show "set_iter_ok w \<longrightarrow> c \<noteq> a"
      using that(1) by (auto simp: set_iter_ok_def)
    show "Q r1" "Q r3" using that(2,4) assms(4) by (simp_all add: list_all_iff)
    show "Q r2" using that(3,5) by (simp add: list_all_iff)
  qed
  from Cons.prems(1) show ?case
  proof (cases rule: target_loop_ConsE)
    case cap
    with Cons.prems(2,3) show ?thesis by simp
  next
    case (fetch_raise e c1)
    from get_relations_to_inv[OF fetch_raise(2) Cons.prems(3) QR] fetch_raise(4) Cons.prems(2)
    show ?thesis by simp
  next
    case (empty c1)
    from get_relations_to_inv[OF empty(2) Cons.prems(3) QR]
    have "cache_all Q (api_client (f\<lparr>api_client := c1\<rparr>))" by simp
    moreover from Cons.prems(2) have "\<forall>t\<in>known_triangles (f\<lparr>api_client := c1\<rparr>). P t" by simp
    ultimately show ?thesis using Cons.IH[OF empty(3)] by blast
  next
    case (stop rt c1)
    from get_relations_to_inv[OF stop(2) Cons.prems(3) QR]
    have c1: "cache_all Q c1" and rt: "list_all Q rt" by simp_all
    from Cons.prems(2) have "\<forall>t\<in>known_triangles (f\<lparr>api_client := c1\<rparr>). P t" by simp
    from source_loop_known[OF stop(4) this] candidates[OF _ _ _ _ rt] c1
    show ?thesis by simp
  next
    case (cont rt c1 f1 n1)
    from get_relations_to_inv[OF cont(2) Cons.prems(3) QR]
    have c1: "cache_all Q c1" and rt: "list_all Q rt" by simp_all
    from Cons.prems(2) have "\<forall>t\<in>known_triangles (f\<lparr>api_client := c1\<rparr>). P t" by simp
    from source_loop_known[OF cont(4) this] candidates[OF _ _ _ _ rt] c1
    have "\<forall>t\<in>known_triangles f1. P t" "cache_all Q (api_client f1)" by simp_all
    from Cons.IH[OF cont(5) this] show ?thesis .
  qed
qed


lemma try_body_known:
  assumes "try_body w a f = (s, f')"
    and "\<forall>t\<in>known_triangles f. P t"
    and "cache_all Q (api_client f)"
    and QR: "\<And>s t ty x. ty \<notin> EXCLUDED_RELATION_TYPES \<Longrightarrow>
           Q \<lparr>source = s, target = t, rtype = ty, weight = x\<rparr>"
    and PQ: "\<And>b c r1 r2 r3. (set_iter_ok w \<longrightarrow> c \<noteq> a) \<Longrightarrow> Q r1 \<Longrightarrow> Q r2 \<Longrightarrow> Q r3 \<Longrightarrow>
           P (make_triangle a b c r1 r2 r3)"
  shows "(\<forall>t\<in>known_triangles f'. P t) \<and> cache_all Q (api_client f')"
  using assms(1)
proof (cases rule: try_body_cases)
  case (fetch_raised e c1)
  from get_relations_from_inv[OF fetch_raised(1) assms(3) QR] fetch_raised(3) assms(2)
  show ?thesis by simp
next
  case (no_relations c1)
  from get_relations_from_inv[OF no_relations(1) assms(3) QR] no_relations(3) assms(2)
  show ?thesis by simp
next
  case (looped rf c1 n')
  from get_relations_from_inv[OF looped(1) assms(3) QR]
  have c1: "cache_all Q (api_client (f\<lparr>api_client := c1\<rparr>))" and rf: "list_all Q rf"
    by simp_all
  from assms(2) have known: "\<forall>t\<in>known_triangles (f\<lparr>api_client := c1\<rparr>). P t" by simp
  show ?thesis
    by (rule target_loop_known[where P = P and Q = Q, OF looped(3) known c1 rf QR PQ])
qed

lemma find_triangles_known:
  assumes "find_triangles w start_node f = (r, f')"
    and "\<forall>t\<in>known_triangles f. P t"
    and "cache_all Q (api_client f)"
    and QR: "\<And>s t ty x. ty \<notin> EXCLUDED_RELATION_TYPES \<Longrightarrow>
           Q \<lparr>source = s, target = t, rtype = ty, weight = x\<rparr>"
    and PQ: "\<And>a b c r1 r2 r3. (set_iter_ok w \<longrightarrow> c \<noteq> a) \<Longrightarrow> Q r1 \<Longrightarrow> Q r2 \<Longrightarrow> Q r3 \<Longrightarrow>
           P (make_triangle a b c r1 r2 r3)"
  shows "(\<forall>t\<in>known_triangles f'. P t) \<and> cache_all Q (api_client f')"
proof -
  have entered: "(\<forall>t\<in>known_triangles f2. P t) \<and> cache_all Q (api_client f2)"
    if "db_is_node_processed w name f = (Inr False, f1)"
      "db_mark_node_in_progress w name
         (f1\<lparr>processed_nodes := insert name (processed_nodes f1)\<rparr>) = (m, f2)"
    for name f1 f2 m
    using db_is_node_processed_frame[OF that(1)] db_mark_node_in_progress_frame[OF that(2)]
      assms(2,3) by (simp add: known_triangles_def)
  have checked: "(\<forall>t\<in>known_triangles f1. P t) \<and> cache_all Q (api_client f1)"
    if "db_is_node_processed w name f = (x, f1)" for name f1 x
    using db_is_node_processed_frame[OF that] assms(2,3) by (simp add: known_triangles_def)
  from assms(1) show ?thesis
  proof (cases rule: find_triangles_cases)
    case not_dict
    with assms(2,3) show ?thesis by simp
  next
    case (no_name nd)
    with assms(2,3) show ?thesis by simp
  next
    case (check_raised nd name e)
    from checked[OF check_raised(4)] show ?thesis .
  next
    case (already_done nd name)
    from checked[OF already_done(4)] show ?thesis .
  next
    case (visited nd name)
    from checked[OF visited(4)] show ?thesis .
  next
    case (mark_raised nd name f1 e)
    from entered[OF mark_raised(4,6)] show ?thesis .
  next
    case (body_raised nd name f1 f2 e)
    from entered[OF body_raised(4,6)]
    have "\<forall>t\<in>known_triangles f2. P t" "cache_all Q (api_client f2)" by simp_all
    then show ?thesis
      by (rule try_body_known[where P = P and Q = Q, OF body_raised(7) _ _ QR PQ])
  next
    case (body_returned nd name f1 f2 ts)
    from entered[OF body_returned(4,6)]
    have "\<forall>t\<in>known_triangles f2. P t" "cache_all Q (api_client f2)" by simp_all
    then show ?thesis
      by (rule try_body_known[where P = P and Q = Q, OF body_returned(7) _ _ QR PQ])
  next
    case (done_raised nd name f1 f2 f3 e)
    from entered[OF done_raised(4,6)]
    have "\<forall>t\<in>known_triangles f2. P t" "cache_all Q (api_client f2)" by simp_all
    then have "(\<forall>t\<in>known_triangles f3. P t) \<and> cache_all Q (api_client f3)"
      by (rule try_body_known[where P = P and Q = Q, OF done_raised(7) _ _ QR PQ])
    with db_mark_node_processed_frame[OF done_raised(8)] show ?thesis
      by (simp add: known_triangles_def)
  next
    case (completed nd name f1 f2 f3)
    from entered[OF completed(4,6)]
    have "\<forall>t\<in>known_triangles f2. P t" "cache_all Q (api_client f2)" by simp_all
    then have "(\<forall>t\<in>known_triangles f3. P t) \<and> cache_all Q (api_client f3)"
      by (rule try_body_known[where P = P and Q = Q, OF completed(7) _ _ QR PQ])
    with db_mark_node_processed_frame[OF completed(8)] show ?thesis
      by (simp add: known_triangles_def)
  qed
qed

text \<open>
  C4. Starting from a finder whose memoised relations and known triangles (in memory and
  persisted) carry no excluded type code, as a new finder does, a call of \<open>find_triangles\<close>
  leaves a finder with the same property: every triangle it appended or saved has its three
  edge types outside the excluded set, because both accessors filter the payload before they
  build and memoise relations. This holds for every server, database behaviour and set
  iteration order.
\<close>

theorem produced_triangles_avoid_excluded_types:
  assumes "find_triangles w start_node f = (r, f')"
    and "cache_all allowed_relation (api_client f)"
    and "\<forall>t\<in>known_triangles f. allowed_triangle t"
  shows "(\<forall>t\<in>known_triangles f'. allowed_triangle t) \<and>
         cache_all allowed_relation (api_client f')"
  using assms(1,3,2)
proof (rule find_triangles_known[where P = allowed_triangle and Q = allowed_relation])
  show "\<And>s t ty x. ty \<notin> EXCLUDED_RELATION_TYPES \<Longrightarrow>
           allowed_relation \<lparr>source = s, target = t, rtype = ty, weight = x\<rparr>"
    by (simp add: allowed_relation_def)
  show "\<And>a b c r1 r2 r3. (set_iter_ok w \<longrightarrow> c \<noteq> a) \<Longrightarrow> allowed_relation r1 \<Longrightarrow>
           allowed_relation r2 \<Longrightarrow> allowed_relation r3 \<Longrightarrow>
           allowed_triangle (make_triangle a b c r1 r2 r3)"
    by (simp add: allowed_relation_def allowed_triangle_def make_triangle_def)
qed

text \<open>
  C5, as the code has it. Only the closing node is kept apart from the seed: when sets are
  iterated over their own elements, every triangle appended or saved by \<open>find_triangles\<close> has
  \<open>C \<noteq> A\<close>, since \<open>source_nodes\<close> leaves out the seed's name. Nothing keeps \<open>B\<close>
  apart from \<open>A\<close> or from \<open>C\<close>.
\<close>

theorem closing_node_differs_from_seed:
  assumes "find_triangles w start_node f = (r, f')"
    and "set_iter_ok w"
    and "\<forall>t\<in>known_triangles f. C_node t \<noteq> A_node t"
  shows "\<forall>t\<in>known_triangles f'. C_node t \<noteq> A_node t"
proof -
  have "cache_all (\<lambda>_. True) (api_client f)"
    by (simp add: cache_all_def list_all_iff)
  from find_triangles_known[where P = "\<lambda>t. C_node t \<noteq> A_node t" and Q = "\<lambda>_. True",
      OF assms(1,3) this] assms(2)
  show ?thesis by (simp add: make_triangle_def)
qed


lemma set_iter_ok_remdups: "set_iter w = remdups \<Longrightarrow> set_iter_ok w"
  by (simp add: set_iter_ok_def)

lemma new_finder_clean:
  "cache_all Q (api_client (new_finder mw cap (Some new_database)))"
  "known_triangles (new_finder mw cap (Some new_database)) = {}"
  by (simp_all add: cache_all_def new_finder_def new_client_def known_triangles_def
      db_rows_def new_database_def)

text \<open>The invariant at work on a new finder: the relation of type 1001 from \<open>chat\<close> to
  \<open>chien\<close> is dropped and the triangle is built on the relation of type 7.\<close>

theorem produced_triangles_avoid_excluded_types_witness:
  "cache_all allowed_relation (api_client (new_finder 0 None (Some new_database))) \<and>
   known_triangles (new_finder 0 None (Some new_database)) = {} \<and>
   triangles (snd (find_triangles zoo_succ chat (new_finder 0 None (Some new_database)))) =
     [chat_animal_chien 7 (-1)] \<and>
   list_all allowed_triangle
     (triangles (snd (find_triangles zoo_succ chat (new_finder 0 None (Some new_database)))))"
proof -
  let ?f = "new_finder 0 None (Some new_database)"
  let ?run = "find_triangles zoo_succ chat ?f"
  have "\<forall>t\<in>known_triangles (snd ?run). allowed_triangle t"
    using produced_triangles_avoid_excluded_types[of zoo_succ chat ?f "fst ?run" "snd ?run"]
    by (simp add: new_finder_clean)
  then have "list_all allowed_triangle (triangles (snd ?run))"
    by (simp add: known_triangles_def list_all_iff)
  moreover have "triangles (snd ?run) = [chat_animal_chien 7 (-1)]"
    by (simp add: model_defs zoo_defs zoo_succ_def succ_from_def)
  ultimately show ?thesis by (simp add: new_finder_clean)
qed

text \<open>On the graph with a self relation the one triangle found has \<open>C \<noteq> A\<close>.\<close>

theorem closing_node_differs_from_seed_witness:
  "set_iter_ok selfloop \<and>
   known_triangles (new_finder 0 None (Some new_database)) = {} \<and>
   list_all not_self_closing
     (triangles (snd (find_triangles selfloop chat (new_finder 0 None (Some new_database)))))"
proof -
  let ?f = "new_finder 0 None (Some new_database)"
  let ?run = "find_triangles selfloop chat ?f"
  have ok: "set_iter_ok selfloop"
    by (rule set_iter_ok_remdups) (simp add: selfloop_def zoo_def)
  have "\<forall>t\<in>known_triangles (snd ?run). C_node t \<noteq> A_node t"
    using closing_node_differs_from_seed[of selfloop chat ?f "fst ?run" "snd ?run"] ok
    by (simp add: new_finder_clean)
  then have "list_all not_self_closing (triangles (snd ?run))"
    by (simp add: known_triangles_def list_all_iff not_self_closing_def)
  with ok show ?thesis by (simp add: new_finder_clean)
qed

text \<open>
  C5 as stated fails: \<open>animal\<close> is related to itself, so it is both a target of \<open>chat\<close>
  and a source of a relation into \<open>animal\<close>, and \<open>find_triangles\<close> reports the triangle
  \<open>(chat, animal, animal)\<close> with \<open>B = C\<close>.
\<close>

theorem self_relation_breaks_distinctness:
  "fst (find_triangles selfloop chat (new_finder 0 None None)) =
     Inr [\<lparr>A_node = ''chat'', B_node = ''animal'', C_node = ''animal'', A_to_B = 6,
           C_to_B = 19, A_to_C = 6, A_to_B_weight = 1, C_to_B_weight = 1,
           A_to_C_weight = 1\<rparr>] \<and>
   \<not> distinct_nodes \<lparr>A_node = ''chat'', B_node = ''animal'', C_node = ''animal'', A_to_B = 6,
           C_to_B = 19, A_to_C = 6, A_to_B_weight = 1, C_to_B_weight = 1,
           A_to_C_weight = 1\<rparr>"
  by (simp add: model_defs zoo_defs distinct_nodes_def)

section \<open>The matching step\<close>

text \<open>What one run of the innermost loop appends, when the two \<open>next(...)\<close> lookups
  succeed: a triangle for each of the first \<open>k\<close> relations that reach the closing node, all
  of them when the loop runs to its end.\<close>

lemma match_loop_appends:
  assumes "match_loop w a b c rf rt rs f n = (s, f', n')"
    and "find (\<lambda>r. target r = b) rf = Some r1"
    and "find (\<lambda>r. source r = c) rt = Some r2"
  shows "\<exists>k \<le> length (filter (\<lambda>r. target r = c) rs).
           triangles f' =
             triangles f @ map (make_triangle a b c r1 r2) (take k (filter (\<lambda>r. target r = c) rs)) \<and>
           (s = Next \<longrightarrow> k = length (filter (\<lambda>r. target r = c) rs) \<and> n' = n + int k)"
  using assms(1)
proof (induction rs arbitrary: f n)
  case Nil
  then show ?case by simp
next
  case (Cons r3 rs)
  from Cons.prems show ?case
  proof (cases rule: match_loop_ConsE)
    case skip
    from Cons.IH[OF skip(2)] skip(1) show ?thesis by simp
  next
    case stop
    then show ?thesis by (intro exI[of _ 0]) simp
  next
    case (raise r1' r2' e)
    with assms(2,3) have "r1' = r1" "r2' = r2" by simp_all
    with db_save_triangle_frame[OF raise(4)] raise(1,5)
    show ?thesis by (intro exI[of _ 1]) simp
  next
    case (step r1' r2' g)
    with assms(2,3) have eq: "r1' = r1" "r2' = r2" by simp_all
    from Cons.IH[OF step(5)] obtain k where k: "k \<le> length (filter (\<lambda>r. target r = c) rs)"
      "triangles f' = triangles (g\<lparr>relation_stats := (relation_stats g)(rtype r1' := relation_stats g (rtype r1') + 1)\<rparr>) @
          map (make_triangle a b c r1 r2) (take k (filter (\<lambda>r. target r = c) rs))"
      "s = Next \<longrightarrow> k = length (filter (\<lambda>r. target r = c) rs) \<and> n' = n + 1 + int k"
      by auto
    with db_save_triangle_frame[OF step(4)] step(1) eq
    show ?thesis by (intro exI[of _ "Suc k"]) simp
  qed
qed


text \<open>
  C3, as the code has it. For a combination \<open>(A, B, C)\<close> the matching step produces one
  triangle for every relation of the seed's outgoing list that targets \<open>C\<close>, in list order,
  each with that relation as its edge \<open>A \<rightarrow> C\<close>. The edge \<open>A \<rightarrow> B\<close> of all of them is the
  first outgoing relation that targets \<open>B\<close> and the edge \<open>C \<rightarrow> B\<close> the first incoming
  relation of \<open>B\<close> whose source is \<open>C\<close>: several relations on these two roles do not
  multiply triangles. The per-node counter advances by the number of triangles produced.
\<close>

theorem matching_step_one_triangle_per_closing_relation:
  assumes "match_loop w a b c rf rt rf f n = (Next, f', n')"
    and "find (\<lambda>r. target r = b) rf = Some rel1"
    and "find (\<lambda>r. source r = c) rt = Some rel2"
  shows "triangles f' =
           triangles f @ map (make_triangle a b c rel1 rel2) (filter (\<lambda>r. target r = c) rf) \<and>
         n' = n + int (length (filter (\<lambda>r. target r = c) rf))"
  using match_loop_appends[OF assms] by auto

text \<open>In the graph \<open>zoo\<close>, for \<open>(chat, animal, chien)\<close>: two relations from \<open>chat\<close> reach
  \<open>chien\<close>, two triangles are appended, both on the first relation into \<open>animal\<close>.\<close>

theorem matching_step_one_triangle_per_closing_relation_witness:
  "fst (match_loop zoo ''chat'' ''animal'' ''chien'' zoo_relations_from zoo_relations_to_animal
          zoo_relations_from (new_finder 0 None None) 0) = Next \<and>
   triangles (fst (snd (match_loop zoo ''chat'' ''animal'' ''chien'' zoo_relations_from
          zoo_relations_to_animal zoo_relations_from (new_finder 0 None None) 0))) =
     [chat_animal_chien 7 (-1), chat_animal_chien 5 2] \<and>
   snd (snd (match_loop zoo ''chat'' ''animal'' ''chien'' zoo_relations_from
          zoo_relations_to_animal zoo_relations_from (new_finder 0 None None) 0)) = 2"
proof -
  let ?run = "match_loop zoo ''chat'' ''animal'' ''chien'' zoo_relations_from
          zoo_relations_to_animal zoo_relations_from (new_finder 0 None None) 0"
  have nxt: "fst ?run = Next"
    by (simp add: model_defs zoo_defs zoo_relations_from_def zoo_relations_to_animal_def)
  then have run: "?run = (Next, fst (snd ?run), snd (snd ?run))"
    by (metis prod.collapse)
  have r1: "find (\<lambda>r. target r = ''animal'') zoo_relations_from =
      Some \<lparr>source = ''chat'', target = ''animal'', rtype = 6, weight = 1\<rparr>"
    by (simp add: zoo_relations_from_def)
  have r2: "find (\<lambda>r. source r = ''chien'') zoo_relations_to_animal =
      Some \<lparr>source = ''chien'', target = ''animal'', rtype = 6, weight = 1\<rparr>"
    by (simp add: zoo_relations_to_animal_def)
  from matching_step_one_triangle_per_closing_relation[OF run r1 r2] nxt
  show ?thesis
    by (simp add: new_finder_def zoo_relations_from_def make_triangle_def
        chat_animal_chien_def)
qed

text \<open>
  C3 as stated fails on the whole function as well: with two relations from \<open>chat\<close> to the
  closing node \<open>chien\<close>, \<open>find_triangles\<close> without a cap returns two triangles for the one
  combination \<open>(chat, animal, chien)\<close>, the second built on the second matching relation.
\<close>

theorem two_triangles_for_one_combination:
  "fst (find_triangles zoo chat (new_finder 0 None None)) =
     Inr [chat_animal_chien 7 (-1), chat_animal_chien 5 2] \<and>
   (A_node (chat_animal_chien 7 (-1)), B_node (chat_animal_chien 7 (-1)),
    C_node (chat_animal_chien 7 (-1))) =
   (A_node (chat_animal_chien 5 2), B_node (chat_animal_chien 5 2),
    C_node (chat_animal_chien 5 2))"
  by (simp add: model_defs zoo_defs)

section \<open>The value returned\<close>


lemma keeps_triangles_refl [simp]: "keeps_triangles f f"
  by (simp add: keeps_triangles_def)


lemma keeps_triangles_same: "triangles g = triangles f \<Longrightarrow> keeps_triangles f g"
  by (simp add: keeps_triangles_def)






lemma OperationalError_only:
  "db_is_node_processed w name f = (Inl e, f') \<Longrightarrow> e = OperationalError"
  "db_mark_node_in_progress w name f = (Some e, f') \<Longrightarrow> e = OperationalError"
  "db_mark_node_processed w name f = (Some e, f') \<Longrightarrow> e = OperationalError"
  by (auto simp: db_is_node_processed_def is_node_processed_def db_mark_node_in_progress_def
      mark_node_in_progress_def db_mark_node_processed_def mark_node_processed_def Let_def
      split: option.splits if_splits)







section \<open>get_all_nodes\<close>

lemmas lexicon_defs =
  lexicon_def lexicon_nodes_def lexicon_from_def lexicon_to_def lexicon_by_name_def
  mot_sac_feuille_def mk_node_def mk_raw_def get_all_nodes_def sample_words_def
  startswith_def find_all_triangles_def name_or_empty_def kept_seed_def

lemma all_nodes_loop_result:
  "all_nodes_loop w words acc c = (Inr nodes, c') \<Longrightarrow>
     nodes = acc @ concat (map (\<lambda>i. kept_seed (http_node_by_name w (length (requests c) + i)
                                            (words ! i))) [0..<length words])"
proof (induction words arbitrary: acc c)
  case Nil
  then show ?case by simp
next
  case (Cons word rest)
  let ?c1 = "c\<lparr>requests := requests c @ [Node_by_name word]\<rparr>"
  let ?resp = "http_node_by_name w (length (requests c)) word"
  have shift: "concat (map (\<lambda>i. kept_seed (http_node_by_name w (length (requests c) + i)
                   ((word # rest) ! i))) [0..<length (word # rest)]) =
      kept_seed ?resp @
      concat (map (\<lambda>i. kept_seed (http_node_by_name w (Suc (length (requests c)) + i)
                   (rest ! i))) [0..<length rest])"
    by (simp add: upt_conv_Cons map_Suc_upt[symmetric] comp_def del: upt_Suc)
  show ?case
  proof (cases ?resp)
    case RequestException
    with Cons.prems have "all_nodes_loop w rest acc ?c1 = (Inr nodes, c')"
      by (simp add: Let_def)
    from Cons.IH[OF this] RequestException shift show ?thesis
      by (simp add: kept_seed_def)
  next
    case (Json j)
    show ?thesis
    proof (cases j)
      case NotDict
      with Cons.prems Json show ?thesis by (simp add: Let_def)
    next
      case (NodeDict n)
      show ?thesis
      proof (cases "startswith (name_or_empty n) ''en:''")
        case True
        with Cons.prems Json NodeDict
        have "all_nodes_loop w rest acc ?c1 = (Inr nodes, c')"
          by (simp add: Let_def name_or_empty_def)
        from Cons.IH[OF this] Json NodeDict True shift show ?thesis
          by (simp add: kept_seed_def)
      next
        case False
        let ?c2 = "case nid n of None \<Rightarrow> ?c1
                   | Some i \<Rightarrow> ?c1\<lparr>node_cache := (node_cache ?c1)(i \<mapsto> n)\<rparr>"
        have len: "length (requests ?c2) = Suc (length (requests c))"
          by (simp split: option.splits)
        from Cons.prems Json NodeDict False
        have "all_nodes_loop w rest (acc @ [n]) ?c2 = (Inr nodes, c')"
          by (simp add: Let_def name_or_empty_def)
        from Cons.IH[OF this] Json NodeDict False shift len show ?thesis
          by (simp add: kept_seed_def)
      qed
    qed
  qed
qed

lemma kept_seed_names: "n \<in> set (kept_seed resp) \<Longrightarrow> \<not> startswith (name_or_empty n) ''en:''"
  by (auto simp: kept_seed_def split: response.splits json_node.splits if_splits)

text \<open>
  C9. The list returned by \<open>get_all_nodes\<close> is made, in the order of the sample words, of
  the answers of the node service that are dictionaries whose name does not start with
  \<open>en:\<close>; a failed request contributes nothing, and neither does a node whose name starts
  with \<open>en:\<close>. So no node of the returned list has such a name.
\<close>

theorem get_all_nodes_drops_english_nodes:
  assumes "get_all_nodes w c = (Inr nodes, c')"
  shows "nodes = concat (map (\<lambda>i. kept_seed (http_node_by_name w (length (requests c) + i)
                                   (sample_words ! i))) [0..<length sample_words]) \<and>
         (\<forall>n\<in>set nodes. \<not> startswith (name_or_empty n) ''en:'')"
proof -
  from assms have "all_nodes_loop w sample_words [] c = (Inr nodes, c')"
    by (simp add: get_all_nodes_def)
  from all_nodes_loop_result[OF this]
  have eq: "nodes = concat (map (\<lambda>i. kept_seed (http_node_by_name w (length (requests c) + i)
                                   (sample_words ! i))) [0..<length sample_words])"
    by simp
  have "\<not> startswith (name_or_empty n) ''en:''" if "n \<in> set nodes" for n
    using that kept_seed_names by (subst (asm) eq) auto
  with eq show ?thesis by blast
qed

text \<open>On the lexicon: \<open>mot\<close> is kept, the English node given for \<open>ville\<close> is dropped, and
  the twelve failed requests give nothing.\<close>

theorem get_all_nodes_drops_english_nodes_witness:
  "fst (get_all_nodes lexicon new_client) = Inr [mk_node 10 ''mot''] \<and>
   kept_seed (http_node_by_name lexicon 3 ''ville'') = [] \<and>
   list_all (\<lambda>n. \<not> startswith (name_or_empty n) ''en:'') [mk_node 10 ''mot'']"
proof -
  have res: "fst (get_all_nodes lexicon new_client) = Inr [mk_node 10 ''mot'']"
    by (simp add: lexicon_defs new_client_def Let_def)
  then have run: "get_all_nodes lexicon new_client =
      (Inr [mk_node 10 ''mot''], snd (get_all_nodes lexicon new_client))"
    by (metis prod.collapse)
  from get_all_nodes_drops_english_nodes[OF run, THEN conjunct2]
  have "list_all (\<lambda>n. \<not> startswith (name_or_empty n) ''en:'') [mk_node 10 ''mot'']"
    by (simp only: list_all_iff)
  moreover have "kept_seed (http_node_by_name lexicon 3 ''ville'') = []"
    by (simp add: lexicon_defs)
  ultimately show ?thesis using res by (intro conjI)
qed

section \<open>The weight floor\<close>

lemma floor_outermost:
  "f\<lparr>min_weight := m, triangles := ts\<rparr> = f\<lparr>triangles := ts, min_weight := m\<rparr>"
  "f\<lparr>min_weight := m, relation_stats := st\<rparr> = f\<lparr>relation_stats := st, min_weight := m\<rparr>"
  "f\<lparr>min_weight := m, api_client := cl\<rparr> = f\<lparr>api_client := cl, min_weight := m\<rparr>"
  "f\<lparr>min_weight := m, processed_nodes := ps\<rparr> = f\<lparr>processed_nodes := ps, min_weight := m\<rparr>"
  "f\<lparr>min_weight := m, db := d\<rparr> = f\<lparr>db := d, min_weight := m\<rparr>"
  by (cases f; simp)+

lemma cap_reached_floor [simp]: "cap_reached (f\<lparr>min_weight := m\<rparr>) n = cap_reached f n"
  by (simp add: cap_reached_def)

lemma db_save_triangle_floor:
  "db_save_triangle w t (f\<lparr>min_weight := m\<rparr>) =
     (case db_save_triangle w t f of (e, g) \<Rightarrow> (e, g\<lparr>min_weight := m\<rparr>))"
  by (simp add: db_save_triangle_def split: option.splits prod.splits sum.splits)

lemma match_loop_floor:
  "match_loop w a b c rf rt rs (f\<lparr>min_weight := m\<rparr>) n =
     with_floor m (match_loop w a b c rf rt rs f n)"
proof (induction rs arbitrary: f n)
  case Nil
  show ?case by (simp add: with_floor_def)
next
  case (Cons r3 rs)
  show ?case
  proof (cases "target r3 = c")
    case False
    with Cons.IH show ?thesis by simp
  next
    case True
    show ?thesis
    proof (cases "find (\<lambda>r. target r = b) rf")
      case None
      with True show ?thesis by (simp add: with_floor_def)
    next
      case (Some r1)
      note r1 = this
      show ?thesis
      proof (cases "find (\<lambda>r. source r = c) rt")
        case None
        with True r1 show ?thesis by (simp add: with_floor_def)
      next
        case (Some r2)
        let ?t = "make_triangle a b c r1 r2 r3"
        obtain e g where sv: "db_save_triangle w ?t (f\<lparr>triangles := triangles f @ [?t]\<rparr>) = (e, g)"
          by (cases "db_save_triangle w ?t (f\<lparr>triangles := triangles f @ [?t]\<rparr>)") auto
        have sv': "db_save_triangle w ?t (f\<lparr>min_weight := m, triangles := triangles f @ [?t]\<rparr>)
            = (e, g\<lparr>min_weight := m\<rparr>)"
          using db_save_triangle_floor[where f = "f\<lparr>triangles := triangles f @ [?t]\<rparr>" and m = m and t = ?t
            and w = w] sv
          by (simp add: floor_outermost)
        show ?thesis
        proof (cases e)
          case None
          with True r1 Some sv sv' Cons.IH show ?thesis
            by (simp add: Let_def floor_outermost)
        next
          case (Some err)
          with True r1 \<open>find (\<lambda>r. source r = c) rt = Some r2\<close> sv sv' show ?thesis
            by (simp add: Let_def with_floor_def)
        qed
      qed
    qed
  qed
qed


lemma source_loop_floor:
  "source_loop w a b rf rt cs (f\<lparr>min_weight := m\<rparr>) n =
     with_floor m (source_loop w a b rf rt cs f n)"
proof (induction cs arbitrary: f n)
  case Nil
  show ?case by (simp add: with_floor_def)
next
  case (Cons c cs)
  obtain s f1 n1 where ml: "match_loop w a b c rf rt rf f n = (s, f1, n1)"
    by (cases "match_loop w a b c rf rt rf f n") auto
  with Cons.IH show ?case
    by (cases s) (simp_all add: match_loop_floor with_floor_def)
qed

lemma target_loop_floor:
  "target_loop w a rf bs (f\<lparr>min_weight := m\<rparr>) n =
     with_floor m (target_loop w a rf bs f n)"
proof (induction bs arbitrary: f n)
  case Nil
  show ?case by (simp add: with_floor_def)
next
  case (Cons b bs)
  obtain r c1 where g: "get_relations_to w b (api_client f) = (r, c1)"
    by (cases "get_relations_to w b (api_client f)") auto
  show ?case
  proof (cases r)
    case (Inl e)
    with g show ?thesis by (simp add: with_floor_def floor_outermost)
  next
    case (Inr rt)
    obtain s f1 n1 where sl: "source_loop w a b rf rt
         (set_iter w (map source (filter (\<lambda>rel. source rel \<noteq> a) rt)))
         (f\<lparr>api_client := c1\<rparr>) n = (s, f1, n1)"
      by (cases "source_loop w a b rf rt
         (set_iter w (map source (filter (\<lambda>rel. source rel \<noteq> a) rt)))
         (f\<lparr>api_client := c1\<rparr>) n") auto
    with g Inr Cons.IH show ?thesis
      by (cases s) (simp_all add: source_loop_floor with_floor_def floor_outermost)
  qed
qed

lemma try_body_floor:
  "try_body w a (f\<lparr>min_weight := m\<rparr>) =
     (case try_body w a f of (s, g) \<Rightarrow> (s, g\<lparr>min_weight := m\<rparr>))"
  by (simp add: try_body_def target_loop_floor with_floor_def floor_outermost
      split: prod.splits sum.splits)

lemma db_calls_floor:
  "db_is_node_processed w a (f\<lparr>min_weight := m\<rparr>) =
     (case db_is_node_processed w a f of (r, g) \<Rightarrow> (r, g\<lparr>min_weight := m\<rparr>))"
  "db_mark_node_in_progress w a (f\<lparr>min_weight := m\<rparr>) =
     (case db_mark_node_in_progress w a f of (r, g) \<Rightarrow> (r, g\<lparr>min_weight := m\<rparr>))"
  "db_mark_node_processed w a (f\<lparr>min_weight := m\<rparr>) =
     (case db_mark_node_processed w a f of (r, g) \<Rightarrow> (r, g\<lparr>min_weight := m\<rparr>))"
  by (simp_all add: db_is_node_processed_def db_mark_node_in_progress_def
      db_mark_node_processed_def floor_outermost split: option.splits prod.splits)

lemma find_triangles_floor:
  "find_triangles w start_node (f\<lparr>min_weight := m\<rparr>) =
     (case find_triangles w start_node f of (r, g) \<Rightarrow> (r, g\<lparr>min_weight := m\<rparr>))"
proof (cases start_node)
  case NotDict
  then show ?thesis by (simp add: find_triangles_def)
next
  case (NodeDict nd)
  note nd = this
  show ?thesis
  proof (cases "nname nd = None \<or> nname nd = Some []")
    case True
    with nd show ?thesis by (auto simp: find_triangles_def)
  next
    case False
    then obtain name where name: "nname nd = Some name" "name \<noteq> []" by auto
    obtain r1 f1 where chk: "db_is_node_processed w name f = (r1, f1)"
      by (cases "db_is_node_processed w name f") auto
    note start = nd name chk
    show ?thesis
    proof (cases r1)
      case (Inl e)
      with start show ?thesis by (simp add: find_triangles_def db_calls_floor)
    next
      case (Inr p)
      show ?thesis
      proof (cases "p \<or> name \<in> processed_nodes f1")
        case True
        with start Inr show ?thesis by (auto simp: find_triangles_def db_calls_floor)
      next
        case False
        obtain e2 f2 where mk: "db_mark_node_in_progress w name
            (f1\<lparr>processed_nodes := insert name (processed_nodes f1)\<rparr>) = (e2, f2)"
          by (cases "db_mark_node_in_progress w name
            (f1\<lparr>processed_nodes := insert name (processed_nodes f1)\<rparr>)") auto
        note entered = start Inr False mk
        show ?thesis
        proof (cases e2)
          case (Some e)
          with entered show ?thesis
            by (simp add: find_triangles_def db_calls_floor floor_outermost)
        next
          case None
          obtain s f3 where tb: "try_body w name f2 = (s, f3)"
            by (cases "try_body w name f2") auto
          obtain e4 f4 where dn: "db_mark_node_processed w name f3 = (e4, f4)"
            by (cases "db_mark_node_processed w name f3") auto
          from entered None tb dn show ?thesis
            by (cases s; cases e4)
               (simp_all add: find_triangles_def db_calls_floor floor_outermost
                  try_body_floor)
        qed
      qed
    qed
  qed
qed

lemma find_all_loop_floor:
  "find_all_loop w nodes (f\<lparr>min_weight := m\<rparr>) =
     (case find_all_loop w nodes f of (r, g) \<Rightarrow> (r, g\<lparr>min_weight := m\<rparr>))"
  by (induction nodes arbitrary: f)
     (simp_all add: find_triangles_floor split: prod.splits sum.splits)

lemma find_all_triangles_floor:
  "find_all_triangles w (f\<lparr>min_weight := m\<rparr>) =
     (case find_all_triangles w f of (r, g) \<Rightarrow> (r, g\<lparr>min_weight := m\<rparr>))"
  by (simp add: find_all_triangles_def find_all_loop_floor floor_outermost
      split: prod.splits sum.splits option.splits)


lemma new_finder_floor: "new_finder m cap d = (new_finder 0 cap d)\<lparr>min_weight := m\<rparr>"
  by (simp add: new_finder_def)

text \<open>
  C7. The value returned by \<open>find_all_triangles\<close>, and the list of triangles it leaves in
  the finder, do not depend on the weight floor: two finders that differ only in
  \<open>min_weight\<close>, such as two new finders built with different floors, give the same result
  on the same server, store and iteration order. No path of the search reads \<open>min_weight\<close>.
\<close>

theorem find_all_triangles_ignores_min_weight:
  "fst (find_all_triangles w (f\<lparr>min_weight := m\<rparr>)) =
     fst (find_all_triangles w (f\<lparr>min_weight := m'\<rparr>)) \<and>
   triangles (snd (find_all_triangles w (f\<lparr>min_weight := m\<rparr>))) =
     triangles (snd (find_all_triangles w (f\<lparr>min_weight := m'\<rparr>))) \<and>
   fst (find_all_triangles w (new_finder m cap d)) =
     fst (find_all_triangles w (new_finder m' cap d))"
proof -
  have fst_eq: "fst (find_all_triangles w (g\<lparr>min_weight := k\<rparr>)) = fst (find_all_triangles w g)"
    for g k
    by (simp add: find_all_triangles_floor split: prod.splits)
  have tri_eq: "triangles (snd (find_all_triangles w (g\<lparr>min_weight := k\<rparr>))) =
      triangles (snd (find_all_triangles w g))" for g k
    by (simp add: find_all_triangles_floor split: prod.splits)
  have nf: "fst (find_all_triangles w (new_finder k cap d)) =
      fst (find_all_triangles w (new_finder 0 cap d))" for k
    by (subst new_finder_floor) (rule fst_eq)
  have "fst (find_all_triangles w (new_finder m cap d)) =
      fst (find_all_triangles w (new_finder m' cap d))"
    using nf[of m] nf[of m'] by simp
  with fst_eq[where g = f and k = m] fst_eq[where g = f and k = m']
    tri_eq[where g = f and k = m] tri_eq[where g = f and k = m']
  show ?thesis by simp
qed

text \<open>On the lexicon the search started with floor 0 and the one started with floor 100
  return the same triangle, whose edge from \<open>mot\<close> to \<open>feuille\<close> has weight \<open>-2\<close>.\<close>

theorem find_all_triangles_ignores_min_weight_witness:
  "fst (find_all_triangles lexicon (new_finder 0 None None)) = Inr [mot_sac_feuille] \<and>
   fst (find_all_triangles lexicon (new_finder 100 None None)) = Inr [mot_sac_feuille] \<and>
   A_to_C_weight mot_sac_feuille = - 2"
proof -
  have zero: "fst (find_all_triangles lexicon (new_finder 0 None None)) = Inr [mot_sac_feuille]"
    by (simp add: model_defs lexicon_defs)
  have "fst (find_all_triangles lexicon (new_finder 100 None None)) =
      fst (find_all_triangles lexicon (new_finder 0 None None))"
    using find_all_triangles_ignores_min_weight[where w = lexicon and m = 100 and m' = 0
        and cap = None and d = None]
    by (rule conjunct2[THEN conjunct2])
  with zero have "fst (find_all_triangles lexicon (new_finder 100 None None)) =
      Inr [mot_sac_feuille]"
    by simp
  moreover have "A_to_C_weight mot_sac_feuille = - 2"
    by (simp add: mot_sac_feuille_def)
  ultimately show ?thesis using zero by (intro conjI)
qed

section \<open>Memoisation\<close>











section \<open>Failures of the store\<close>

lemma db_events_simps [simp]:
  "db_events (f\<lparr>triangles := ts\<rparr>) = db_events f"
  "db_events (f\<lparr>relation_stats := rs\<rparr>) = db_events f"
  "db_events (f\<lparr>api_client := c\<rparr>) = db_events f"
  "db_events (f\<lparr>processed_nodes := ps\<rparr>) = db_events f"
  "db_events (f\<lparr>min_weight := m\<rparr>) = db_events f"
  by (simp_all add: db_events_def)

lemma raising_calls_same: "db_events g = db_events f \<Longrightarrow> raising_calls w f g ok"
  by (simp add: raising_calls_def)

lemma raising_calls_mono:
  "raising_calls w f g ok \<Longrightarrow> (\<And>ev. ok ev \<Longrightarrow> ok' ev) \<Longrightarrow> raising_calls w f g ok'"
  unfolding raising_calls_def by blast

lemma raising_calls_trans:
  assumes "raising_calls w f g ok" "raising_calls w g h ok"
  shows "raising_calls w f h ok"
proof -
  from assms obtain xs ys where xs: "db_events g = db_events f @ xs"
    "\<forall>i<length xs. db_raises w (length (db_events f) + i) \<longrightarrow> ok (xs ! i)"
    and ys: "db_events h = db_events g @ ys"
    "\<forall>i<length ys. db_raises w (length (db_events g) + i) \<longrightarrow> ok (ys ! i)"
    unfolding raising_calls_def by blast
  have "ok ((xs @ ys) ! i)"
    if "i < length (xs @ ys)" "db_raises w (length (db_events f) + i)" for i
  proof (cases "i < length xs")
    case True
    with xs(2) that(2) show ?thesis by (simp add: nth_append)
  next
    case False
    then have "i - length xs < length ys"
      "length (db_events g) + (i - length xs) = length (db_events f) + i"
      using that(1) xs(1) by simp_all
    with ys(2) that(2) have "ok (ys ! (i - length xs))" by metis
    with False show ?thesis by (simp add: nth_append)
  qed
  moreover have "db_events h = db_events f @ (xs @ ys)"
    using xs(1) ys(1) by simp
  ultimately show ?thesis unfolding raising_calls_def by blast
qed

lemma raising_calls_one:
  assumes "db_events g = db_events f @ [ev]" "db_raises w (length (db_events f)) \<Longrightarrow> ok ev"
  shows "raising_calls w f g ok"
  unfolding raising_calls_def using assms by (intro exI[of _ "[ev]"]) simp

lemma db_save_triangle_calls:
  assumes "db_save_triangle w t f = (e, g)"
  shows "raising_calls w f g (\<lambda>ev. (\<exists>x. ev = Save_triangle x) \<and> e \<noteq> None)"
proof (cases "db f")
  case None
  with assms have "db_events g = db_events f"
    by (auto simp: db_save_triangle_def db_events_def)
  then show ?thesis by (rule raising_calls_same)
next
  case (Some d)
  with assms have "db_events g = db_events f @ [Save_triangle t]"
    "db_raises w (length (db_events f)) \<Longrightarrow> e \<noteq> None"
    by (auto simp: db_save_triangle_def save_triangle_def db_events_def Let_def
        split: if_splits)
  then show ?thesis by (intro raising_calls_one[where ev = "Save_triangle t"]) auto
qed

lemma db_is_node_processed_calls:
  assumes "db_is_node_processed w name f = (r, g)"
  shows "raising_calls w f g (\<lambda>ev. (\<exists>x. ev = Is_node_processed x) \<and> r = Inl OperationalError)"
proof (cases "db f")
  case None
  with assms have "db_events g = db_events f"
    by (auto simp: db_is_node_processed_def db_events_def)
  then show ?thesis by (rule raising_calls_same)
next
  case (Some d)
  with assms have "db_events g = db_events f @ [Is_node_processed name]"
    "db_raises w (length (db_events f)) \<Longrightarrow> r = Inl OperationalError"
    by (auto simp: db_is_node_processed_def is_node_processed_def db_events_def Let_def
        split: if_splits)
  then show ?thesis by (intro raising_calls_one[where ev = "Is_node_processed name"]) auto
qed

lemma db_mark_node_in_progress_calls:
  assumes "db_mark_node_in_progress w name f = (e, g)"
  shows "raising_calls w f g
           (\<lambda>ev. (\<exists>x. ev = Mark_node_in_progress x) \<and> e = Some OperationalError)"
proof (cases "db f")
  case None
  with assms have "db_events g = db_events f"
    by (auto simp: db_mark_node_in_progress_def db_events_def)
  then show ?thesis by (rule raising_calls_same)
next
  case (Some d)
  with assms have "db_events g = db_events f @ [Mark_node_in_progress name]"
    "db_raises w (length (db_events f)) \<Longrightarrow> e = Some OperationalError"
    by (auto simp: db_mark_node_in_progress_def mark_node_in_progress_def db_events_def Let_def
        split: if_splits)
  then show ?thesis by (intro raising_calls_one[where ev = "Mark_node_in_progress name"]) auto
qed

lemma db_mark_node_processed_calls:
  assumes "db_mark_node_processed w name f = (e, g)"
  shows "raising_calls w f g
           (\<lambda>ev. (\<exists>x. ev = Mark_node_processed x) \<and> e = Some OperationalError)"
proof (cases "db f")
  case None
  with assms have "db_events g = db_events f"
    by (auto simp: db_mark_node_processed_def db_events_def)
  then show ?thesis by (rule raising_calls_same)
next
  case (Some d)
  with assms have "db_events g = db_events f @ [Mark_node_processed name]"
    "db_raises w (length (db_events f)) \<Longrightarrow> e = Some OperationalError"
    by (auto simp: db_mark_node_processed_def mark_node_processed_def db_events_def Let_def
        split: if_splits)
  then show ?thesis by (intro raising_calls_one[where ev = "Mark_node_processed name"]) auto
qed


lemma raising_calls_from:
  "db_events f1 = db_events f2 \<Longrightarrow> raising_calls w f1 g ok \<Longrightarrow> raising_calls w f2 g ok"
  by (simp add: raising_calls_def)

lemma match_loop_calls:
  "match_loop w a b c rf rt rs f n = (s, f', n') \<Longrightarrow>
     raising_calls w f f' (\<lambda>ev. (\<exists>x. ev = Save_triangle x) \<and> (\<exists>e. s = Raised e))"
proof (induction rs arbitrary: f n)
  case Nil
  then show ?case by (simp add: raising_calls_same)
next
  case (Cons r3 rs)
  from Cons.prems show ?case
  proof (cases rule: match_loop_ConsE)
    case skip
    from Cons.IH[OF skip(2)] show ?thesis .
  next
    case stop
    then show ?thesis by (simp add: raising_calls_same)
  next
    case (raise r1 r2 e)
    from db_save_triangle_calls[OF raise(4)]
    have "raising_calls w f f' (\<lambda>ev. (\<exists>x. ev = Save_triangle x) \<and> Some e \<noteq> None)"
      by (rule raising_calls_from[rotated]) simp
    then show ?thesis by (rule raising_calls_mono) (use raise(5) in simp)
  next
    case (step r1 r2 g)
    let ?g = "g\<lparr>relation_stats := (relation_stats g)(rtype r1 := relation_stats g (rtype r1) + 1)\<rparr>"
    from db_save_triangle_calls[OF step(4)]
    have "raising_calls w f g (\<lambda>ev. (\<exists>x. ev = Save_triangle x) \<and> (None :: error option) \<noteq> None)"
      by (rule raising_calls_from[rotated]) simp
    then have one: "raising_calls w f g
        (\<lambda>ev. (\<exists>x. ev = Save_triangle x) \<and> (\<exists>e. s = Raised e))"
      by (rule raising_calls_mono) simp
    from Cons.IH[OF step(5)]
    have "raising_calls w g f' (\<lambda>ev. (\<exists>x. ev = Save_triangle x) \<and> (\<exists>e. s = Raised e))"
      by (rule raising_calls_from[rotated]) simp
    with one show ?thesis by (rule raising_calls_trans)
  qed
qed

lemma source_loop_calls:
  "source_loop w a b rf rt cs f n = (s, f', n') \<Longrightarrow>
     raising_calls w f f' (\<lambda>ev. (\<exists>x. ev = Save_triangle x) \<and> (\<exists>e. s = Raised e))"
proof (induction cs arbitrary: f n)
  case Nil
  then show ?case by (simp add: raising_calls_same)
next
  case (Cons c cs)
  from Cons.prems show ?case
  proof (cases rule: source_loop_ConsE)
    case cap
    then show ?thesis by (simp add: raising_calls_same)
  next
    case stop
    from match_loop_calls[OF stop(2)] show ?thesis .
  next
    case (cont f1 n1)
    from match_loop_calls[OF cont(2)]
    have "raising_calls w f f1 (\<lambda>ev. (\<exists>x. ev = Save_triangle x) \<and> (\<exists>e. s = Raised e))"
      by (rule raising_calls_mono) simp
    with Cons.IH[OF cont(3)] show ?thesis by (blast intro: raising_calls_trans)
  qed
qed

lemma target_loop_calls:
  "target_loop w a rf bs f n = (s, f', n') \<Longrightarrow>
     raising_calls w f f' (\<lambda>ev. (\<exists>x. ev = Save_triangle x) \<and> (\<exists>e. s = Raised e))"
proof (induction bs arbitrary: f n)
  case Nil
  then show ?case by (simp add: raising_calls_same)
next
  case (Cons b bs)
  from Cons.prems show ?case
  proof (cases rule: target_loop_ConsE)
    case cap
    then show ?thesis by (simp add: raising_calls_same)
  next
    case (fetch_raise e c1)
    then show ?thesis by (simp add: raising_calls_same)
  next
    case (empty c1)
    from Cons.IH[OF empty(3)] show ?thesis by (rule raising_calls_from[rotated]) simp
  next
    case (stop rt c1)
    from source_loop_calls[OF stop(4)] show ?thesis by (rule raising_calls_from[rotated]) simp
  next
    case (cont rt c1 f1 n1)
    from source_loop_calls[OF cont(4)]
    have "raising_calls w f f1 (\<lambda>ev. (\<exists>x. ev = Save_triangle x) \<and> (\<exists>e. Next = Raised e))"
      by (rule raising_calls_from[rotated]) simp
    then have "raising_calls w f f1 (\<lambda>ev. (\<exists>x. ev = Save_triangle x) \<and> (\<exists>e. s = Raised e))"
      by (rule raising_calls_mono) simp
    with Cons.IH[OF cont(5)] show ?thesis by (blast intro: raising_calls_trans)
  qed
qed

lemma try_body_calls:
  assumes "try_body w a f = (s, f')"
  shows "raising_calls w f f' (\<lambda>ev. (\<exists>x. ev = Save_triangle x) \<and> (\<exists>e. s = Raised e))"
  using assms
proof (cases rule: try_body_cases)
  case (fetch_raised e c1)
  then show ?thesis by (simp add: raising_calls_same)
next
  case (no_relations c1)
  then show ?thesis by (simp add: raising_calls_same)
next
  case (looped rf c1 n')
  from target_loop_calls[OF looped(3)] show ?thesis
    by (rule raising_calls_from[rotated]) simp
qed


lemma surfaced_simps [simp]:
  "surfaced r (Save_triangle t) = (r = Inr [])"
  "surfaced r (Is_node_processed x) = (r = Inl OperationalError)"
  "surfaced r (Mark_node_in_progress x) = (r = Inl OperationalError)"
  "surfaced r (Mark_node_processed x) = (r = Inl OperationalError)"
  by (simp_all add: surfaced_def)

lemma find_triangles_calls:
  assumes "find_triangles w start_node f = (r, f')"
  shows "raising_calls w f f' (surfaced r)"
proof -
  have check: "raising_calls w f f1 (surfaced r)"
    if "db_is_node_processed w name f = (Inr p, f1)" for name p f1
    using db_is_node_processed_calls[OF that] by (rule raising_calls_mono) simp
  have mark: "raising_calls w f1 f2 (surfaced r)"
    if "db_mark_node_in_progress w name
          (f1\<lparr>processed_nodes := insert name (processed_nodes f1)\<rparr>) = (None, f2)"
    for name f1 f2
  proof -
    from db_mark_node_in_progress_calls[OF that]
    have "raising_calls w f1 f2
        (\<lambda>ev. (\<exists>x. ev = Mark_node_in_progress x) \<and> (None :: error option) = Some OperationalError)"
      by (rule raising_calls_from[rotated]) simp
    then show ?thesis by (rule raising_calls_mono) simp
  qed
  have body: "raising_calls w f2 f3 (surfaced r)"
    if "try_body w name f2 = (s, f3)" "(\<exists>e. s = Raised e) \<Longrightarrow> r = Inr []" for name s f2 f3
    using try_body_calls[OF that(1)] by (rule raising_calls_mono) (use that(2) in auto)
  from assms show ?thesis
  proof (cases rule: find_triangles_cases)
    case not_dict
    then show ?thesis by (simp add: raising_calls_same)
  next
    case (no_name nd)
    then show ?thesis by (simp add: raising_calls_same)
  next
    case (check_raised nd name e)
    from OperationalError_only(1)[OF check_raised(4)] check_raised(5)
    have "r = Inl OperationalError" by simp
    with db_is_node_processed_calls[OF check_raised(4)] show ?thesis
      by (intro raising_calls_mono[OF db_is_node_processed_calls[OF check_raised(4)]]) auto
  next
    case (already_done nd name)
    from check[OF already_done(4)] show ?thesis .
  next
    case (visited nd name)
    from check[OF visited(4)] show ?thesis .
  next
    case (mark_raised nd name f1 e)
    from OperationalError_only(2)[OF mark_raised(6)] mark_raised(7)
    have r: "r = Inl OperationalError" by simp
    from db_mark_node_in_progress_calls[OF mark_raised(6)]
    have "raising_calls w f1 f'
        (\<lambda>ev. (\<exists>x. ev = Mark_node_in_progress x) \<and> Some e = Some OperationalError)"
      by (rule raising_calls_from[rotated]) simp
    then have "raising_calls w f1 f' (surfaced r)"
      by (rule raising_calls_mono) (use r in auto)
    with check[OF mark_raised(4)] show ?thesis by (rule raising_calls_trans)
  next
    case (body_raised nd name f1 f2 e)
    from body[OF body_raised(7)] body_raised(8)
    have "raising_calls w f2 f' (surfaced r)" by simp
    with mark[OF body_raised(6)] have "raising_calls w f1 f' (surfaced r)"
      by (rule raising_calls_trans)
    with check[OF body_raised(4)] show ?thesis by (rule raising_calls_trans)
  next
    case (body_returned nd name f1 f2 ts)
    from body[OF body_returned(7)]
    have "raising_calls w f2 f' (surfaced r)" by simp
    with mark[OF body_returned(6)] have "raising_calls w f1 f' (surfaced r)"
      by (rule raising_calls_trans)
    with check[OF body_returned(4)] show ?thesis by (rule raising_calls_trans)
  next
    case (done_raised nd name f1 f2 f3 e)
    from OperationalError_only(3)[OF done_raised(8)] done_raised(9)
    have r: "r = Inl OperationalError" by simp
    have "raising_calls w f3 f' (surfaced r)"
      by (rule raising_calls_mono[OF db_mark_node_processed_calls[OF done_raised(8)]])
         (use r in auto)
    moreover from body[OF done_raised(7)]
    have "raising_calls w f2 f3 (surfaced r)" by simp
    ultimately have "raising_calls w f2 f' (surfaced r)"
      by (rule raising_calls_trans[rotated])
    with mark[OF done_raised(6)] have "raising_calls w f1 f' (surfaced r)"
      by (rule raising_calls_trans)
    with check[OF done_raised(4)] show ?thesis by (rule raising_calls_trans)
  next
    case (completed nd name f1 f2 f3)
    have "raising_calls w f3 f' (surfaced r)"
      by (rule raising_calls_mono[OF db_mark_node_processed_calls[OF completed(8)]]) simp
    moreover from body[OF completed(7)]
    have "raising_calls w f2 f3 (surfaced r)" by simp
    ultimately have "raising_calls w f2 f' (surfaced r)"
      by (rule raising_calls_trans[rotated])
    with mark[OF completed(6)] have "raising_calls w f1 f' (surfaced r)"
      by (rule raising_calls_trans)
    with check[OF completed(4)] show ?thesis by (rule raising_calls_trans)
  qed
qed

text \<open>
  C8, as the code has it. Take any call of the store made during \<open>find_triangles\<close> that
  raises. If it is \<open>is_node_processed\<close>, \<open>mark_node_in_progress\<close> or
  \<open>mark_node_processed\<close>, which stand outside the \<open>try\<close> statement, the exception
  reaches the caller. If it is \<open>save_triangle\<close>, which stands inside it, the handler
  \<open>except Exception\<close> absorbs the exception and \<open>find_triangles\<close> returns the empty
  list.
\<close>

theorem store_failure_surfaces_unless_save_triangle:
  assumes "find_triangles w start_node f = (r, f')"
    and "length (db_events f) \<le> k" and "k < length (db_events f')" and "db_raises w k"
  shows "case db_events f' ! k of
           Save_triangle t \<Rightarrow> r = Inr []
         | _ \<Rightarrow> r = Inl OperationalError"
proof -
  from find_triangles_calls[OF assms(1)] obtain evs where
    evs: "db_events f' = db_events f @ evs"
      "\<forall>i<length evs. db_raises w (length (db_events f) + i) \<longrightarrow> surfaced r (evs ! i)"
    unfolding raising_calls_def by blast
  let ?i = "k - length (db_events f)"
  from assms(2,3) evs(1) have "?i < length evs" "length (db_events f) + ?i = k" by simp_all
  with evs(2) assms(4) have "surfaced r (evs ! ?i)" by metis
  moreover from evs(1) assms(2) have "db_events f' ! k = evs ! ?i"
    by (simp add: nth_append)
  ultimately show ?thesis by (simp add: surfaced_def)
qed


text \<open>
  Two runs on the seed \<open>chat\<close> with a new store. When the second call of the store raises,
  it is \<open>mark_node_in_progress\<close> and the caller gets the exception. When the third call
  raises, it is \<open>save_triangle\<close> and the caller gets \<open>[]\<close>.
\<close>

theorem store_failure_surfaces_unless_save_triangle_witness:
  "db_raises broken_mark 1 \<and>
   db_events (snd (find_triangles broken_mark chat (new_finder 0 None (Some new_database)))) ! 1
     = Mark_node_in_progress ''chat'' \<and>
   fst (find_triangles broken_mark chat (new_finder 0 None (Some new_database))) =
     Inl OperationalError \<and>
   db_raises broken_db 2 \<and>
   db_events (snd (find_triangles broken_db chat (new_finder 0 None (Some new_database)))) ! 2
     = Save_triangle (chat_animal_chien 7 (-1)) \<and>
   fst (find_triangles broken_db chat (new_finder 0 None (Some new_database))) = Inr []"
proof -
  let ?f = "new_finder 0 None (Some new_database)"
  have start: "db_events ?f = []"
    by (simp add: db_events_def new_finder_def new_database_def)
  obtain r f' where run: "find_triangles broken_mark chat ?f = (r, f')"
    by (cases "find_triangles broken_mark chat ?f") auto
  then have f': "snd (find_triangles broken_mark chat ?f) = f'" by simp
  have log: "db_events (snd (find_triangles broken_mark chat ?f)) =
      [Is_node_processed ''chat'', Mark_node_in_progress ''chat'']"
    by (simp add: model_defs zoo_defs broken_mark_def db_events_def)
  have raises: "db_raises broken_mark 1"
    by (simp add: broken_mark_def)
  from store_failure_surfaces_unless_save_triangle[OF run, of 1] start log raises f'
  have "r = Inl OperationalError" by simp
  with run have first: "fst (find_triangles broken_mark chat ?f) = Inl OperationalError"
    by simp
  obtain r2 f2 where run2: "find_triangles broken_db chat ?f = (r2, f2)"
    by (cases "find_triangles broken_db chat ?f") auto
  then have f2: "snd (find_triangles broken_db chat ?f) = f2" by simp
  have log2: "db_events (snd (find_triangles broken_db chat ?f)) =
      [Is_node_processed ''chat'', Mark_node_in_progress ''chat'',
       Save_triangle (chat_animal_chien 7 (-1))]"
    by (simp add: model_defs zoo_defs db_events_def)
  have raises2: "db_raises broken_db 2"
    by (simp add: broken_db_def)
  from store_failure_surfaces_unless_save_triangle[OF run2, of 2] start log2 raises2 f2
  have "r2 = Inr []" by simp
  with run2 have second: "fst (find_triangles broken_db chat ?f) = Inr []"
    by simp
  from raises log first raises2 log2 second show ?thesis by simp
qed

text \<open>
  C8 as stated fails for \<open>save_triangle\<close>: the third call of the store raises while the
  first triangle is being saved; \<open>find_triangles\<close> returns \<open>[]\<close> and raises nothing, the
  triangle stays in the in-memory list, the table stays empty and the node stays
  \<open>in_progress\<close>.
\<close>

theorem save_triangle_failure_is_swallowed:
  "fst (find_triangles broken_db chat (new_finder 0 None (Some new_database))) = Inr [] \<and>
   triangles (snd (find_triangles broken_db chat (new_finder 0 None (Some new_database)))) =
     [chat_animal_chien 7 (-1)] \<and>
   db_rows (snd (find_triangles broken_db chat (new_finder 0 None (Some new_database)))) = {} \<and>
   node_status (snd (find_triangles broken_db chat (new_finder 0 None (Some new_database))))
     ''chat'' = Some in_progress"
  by (simp add: model_defs zoo_defs db_rows_def)

end
